theory Spec2Isabelle
  imports Main "HOL-Library.Multiset"
begin

chapter \<open>The embedding\<close>

section \<open>JavaScript values\<close>

text \<open>
  The values that occur in rows, models and join rows. Numbers are modelled as integers
  (identifiers and foreign keys), with \<open>JNaN\<close> kept apart; a function value carries its
  source text, which is what JavaScript's string conversion returns for it; an object is
  a reference into a store. Strings are lists of characters, one per UTF-16 code unit,
  so that \<open>length\<close> is JavaScript's \<open>.length\<close>.
\<close>

datatype jsval =
    JUndefined
  | JNull
  | JBool bool
  | JNum int
  | JNaN
  | JStr string
  | JFun string
  | JRef nat

text \<open>ToBoolean: what \<open>if (!val)\<close> tests.\<close>

fun truthy :: "jsval \<Rightarrow> bool" where
  "truthy JUndefined = False"
| "truthy JNull = False"
| "truthy (JBool b) = b"
| "truthy (JNum n) = (n \<noteq> 0)"
| "truthy JNaN = False"
| "truthy (JStr s) = (s \<noteq> [])"
| "truthy (JFun src) = True"
| "truthy (JRef a) = True"

definition digit :: "nat \<Rightarrow> char" where
  "digit d = ''0123456789'' ! (d mod 10)"

fun show_nat :: "nat \<Rightarrow> string" where
  "show_nat n = (if n < 10 then [digit n] else show_nat (n div 10) @ [digit (n mod 10)])"

declare show_nat.simps [simp del]

text \<open>
  ToString, as used by template literals, by \<open>+ ''\<close> and by property access with a
  non-string key. Objects of the store are plain objects and model instances, whose
  string form is \<open>[object Object]\<close>.
\<close>

fun ToString :: "jsval \<Rightarrow> string" where
  "ToString JUndefined = ''undefined''"
| "ToString JNull = ''null''"
| "ToString (JBool b) = (if b then ''true'' else ''false'')"
| "ToString (JNum n) = (if n < 0 then ''-'' @ show_nat (nat (- n)) else show_nat (nat n))"
| "ToString JNaN = ''NaN''"
| "ToString (JStr s) = s"
| "ToString (JFun src) = src"
| "ToString (JRef a) = ''[object Object]''"

text \<open>
  An object is the list of its own enumerable properties in insertion order, which is
  the order of \<open>Object.keys\<close> for keys that are not array indices. Reading a missing
  property gives \<open>undefined\<close>; writing an existing property keeps its place, writing a
  new one appends it; \<open>delete\<close> removes it.
\<close>

type_synonym obj = "(string \<times> jsval) list"

definition get_prop :: "obj \<Rightarrow> string \<Rightarrow> jsval" where
  "get_prop ob k = (case map_of ob k of None \<Rightarrow> JUndefined | Some v \<Rightarrow> v)"

fun set_prop :: "obj \<Rightarrow> string \<Rightarrow> jsval \<Rightarrow> obj" where
  "set_prop [] k v = [(k, v)]"
| "set_prop ((k', v') # ob) k v = (if k' = k then (k, v) # ob else (k', v') # set_prop ob k v)"

definition delete_prop :: "obj \<Rightarrow> string \<Rightarrow> obj" where
  "delete_prop ob k = filter (\<lambda>kv. fst kv \<noteq> k) ob"

definition has_prop :: "obj \<Rightarrow> string \<Rightarrow> bool" where
  "has_prop ob k = (map_of ob k \<noteq> None)"

definition obj_keys :: "obj \<Rightarrow> string list" where
  "obj_keys ob = map fst ob"

definition obj_values :: "obj \<Rightarrow> jsval list" where
  "obj_values ob = map snd ob"

section \<open>RelationJoinBuilder: path aliases\<close>

text \<open>
  The options of a builder (\<open>minimize\<close>, \<open>separator\<close>, \<open>aliases\<close>) and the part of its
  state that \<open>encode\<close> and \<open>decode\<close> use: the two tables and the token counter.
\<close>

record rjb_opt =
  minimize :: bool
  separator :: string
  aliases :: "string \<rightharpoonup> string"

record rjb =
  opt :: rjb_opt
  encodings :: "string \<rightharpoonup> string"
  decodings :: "string \<rightharpoonup> string"
  encIdx :: nat

definition new_rjb :: "rjb_opt \<Rightarrow> rjb" where
  "new_rjb op = \<lparr>opt = op, encodings = Map.empty, decodings = Map.empty, encIdx = 0\<rparr>"

definition sep :: "rjb \<Rightarrow> string" where
  "sep b = separator (opt b)"

text \<open>\<open>joinPath\<close>: a path is falsy exactly when it is the empty string.\<close>

definition joinPath :: "rjb \<Rightarrow> string \<Rightarrow> string \<Rightarrow> string" where
  "joinPath b path nextPart = (if path \<noteq> [] then path @ sep b @ nextPart else nextPart)"

definition joinTableForPath :: "string \<Rightarrow> string" where
  "joinTableForPath path = path @ ''_join''"

text \<open>
  \<open>String.prototype.split\<close> with a string separator: with the empty separator the
  string falls into its code units, otherwise it is cut at every occurrence of the
  separator, scanning from the left. \<open>Array.prototype.join\<close> puts the separator back.
\<close>

fun split_from :: "string \<Rightarrow> string \<Rightarrow> string \<Rightarrow> string list" where
  "split_from sp cur [] = [cur]"
| "split_from sp cur (c # cs) =
     (if sp \<noteq> [] \<and> take (length sp) (c # cs) = sp
      then cur # split_from sp [] (drop (length sp) (c # cs))
      else split_from sp (cur @ [c]) cs)"

definition js_split :: "string \<Rightarrow> string \<Rightarrow> string list" where
  "js_split s sp = (if sp = [] then map (\<lambda>c. [c]) s else split_from sp [] s)"

fun js_join :: "string list \<Rightarrow> string \<Rightarrow> string" where
  "js_join [] sp = []"
| "js_join [p] sp = p"
| "js_join (p # q # ps) sp = p @ sp @ js_join (q # ps) sp"

definition nextEncodedPath :: "rjb \<Rightarrow> string \<times> rjb" where
  "nextEncodedPath b =
     (let b' = b\<lparr>encIdx := encIdx b + 1\<rparr> in (''_t'' @ show_nat (encIdx b'), b'))"

text \<open>
  The alias of one segment: \<open>this.opt.aliases[part] || part\<close>. An override that is the
  empty string is falsy and leaves the segment as it is.
\<close>

definition aliasPart :: "rjb \<Rightarrow> string \<Rightarrow> string" where
  "aliasPart b part =
     (case aliases (opt b) part of
        None \<Rightarrow> part
      | Some a \<Rightarrow> (if a \<noteq> [] then a else part))"

text \<open>
  \<open>encode\<close>. Both modes first read the cached encoding and use it when it is truthy
  (the root's encoding, the empty string, is falsy and is computed again at every
  call). Otherwise the encoding is computed, by the alias table in the default mode and
  by the next token in the minimize mode, and written to both tables.
\<close>

definition cachedEncoding :: "rjb \<Rightarrow> string \<Rightarrow> string option" where
  "cachedEncoding b path =
     (case encodings b path of
        None \<Rightarrow> None
      | Some e \<Rightarrow> (if e \<noteq> [] then Some e else None))"

definition storeEncoding :: "rjb \<Rightarrow> string \<Rightarrow> string \<Rightarrow> rjb" where
  "storeEncoding b path encPath =
     b\<lparr>encodings := (encodings b)(path \<mapsto> encPath),
       decodings := (decodings b)(encPath \<mapsto> path)\<rparr>"

definition encodeDefault :: "rjb \<Rightarrow> string \<Rightarrow> string" where
  "encodeDefault b path =
     (if path = [] then path
      else js_join (map (aliasPart b) (js_split path (sep b))) (sep b))"

definition encode :: "rjb \<Rightarrow> string \<Rightarrow> string \<times> rjb" where
  "encode b path =
     (if \<not> minimize (opt b) then
        (case cachedEncoding b path of
           Some encPath \<Rightarrow> (encPath, b)
         | None \<Rightarrow>
             (let encPath = encodeDefault b path
              in (encPath, storeEncoding b path encPath)))
      else
        (case cachedEncoding b path of
           Some encPath \<Rightarrow> (encPath, b)
         | None \<Rightarrow>
             (let (encPath, b1) = (if path = [] then (path, b) else nextEncodedPath b)
              in (encPath, storeEncoding b1 path encPath))))"

text \<open>\<open>decode\<close> reads the decoding table; \<open>None\<close> is JavaScript's \<open>undefined\<close>.\<close>

definition decode :: "rjb \<Rightarrow> string \<Rightarrow> string option" where
  "decode b encPath = decodings b encPath"

text \<open>\<open>decode(encode(path))\<close>: the call of \<open>encode\<close> comes first and may write the tables.\<close>

definition decode_encode :: "rjb \<Rightarrow> string \<Rightarrow> string option" where
  "decode_encode b path = (let (encPath, b') = encode b path in decode b' encPath)"

text \<open>The encode calls of a build, in order, on one builder.\<close>

fun encodeAll :: "rjb \<Rightarrow> string list \<Rightarrow> rjb" where
  "encodeAll b [] = b"
| "encodeAll b (p # ps) = encodeAll (snd (encode b p)) ps"

section \<open>Errors, model classes and relations\<close>

text \<open>
  The exceptions the modelled code raises: the \<open>ValidationError\<close> of the repository with
  the text of its \<open>eager\<close> message, JavaScript's \<open>TypeError\<close> (reading or writing a property
  of \<open>undefined\<close> or \<open>null\<close>, writing a property of a primitive in strict mode), and
  the rejection of the promise that the insert callback or a resolver returned.
\<close>

datatype error =
    ValidationError string
  | TypeError
  | Rejected

text \<open>
  What the code reads of a model class and of a relation: the table name, the identifier
  columns (\<open>getIdColumnArray\<close>), the names of the declared relations (the keys of
  \<open>getRelations\<close>), the JSON attributes (\<open>getJsonAttributes\<close>); for a relation its name, \<open>isOneToOne()\<close>, the join table and the
  extra columns of the join table, with the name of each column in the join table, in
  the select list and in the models.
\<close>

record modelClass =
  tableName :: string
  idColumns :: "string list"
  relationNames :: "string list"
  jsonAttributes :: "string list"

record joinTableExtra =
  joinTableCol :: string
  joinTableProp :: string
  aliasCol :: string
  aliasProp :: string

record relation =
  rel_name :: string
  rel_isOneToOne :: bool
  rel_joinTable :: "string option"
  rel_joinTableExtras :: "joinTableExtra list option"

section \<open>RelationJoinBuilder: identifier getters\<close>

text \<open>
  \<open>idCols[i]\<close>: an index past the end reads \<open>undefined\<close>, which as a property key is the
  string \<open>undefined\<close>.
\<close>

definition nth_key :: "string list \<Rightarrow> nat \<Rightarrow> string" where
  "nth_key xs i = (if i < length xs then xs ! i else ''undefined'')"

definition createSingleIdGetter :: "string list \<Rightarrow> obj \<Rightarrow> jsval" where
  "createSingleIdGetter idCols row =
     (let val = get_prop row (nth_key idCols 0)
      in if \<not> truthy val then JNull else JStr (''id:'' @ ToString val))"

definition createTwoIdGetter :: "string list \<Rightarrow> obj \<Rightarrow> jsval" where
  "createTwoIdGetter idCols row =
     (let val1 = get_prop row (nth_key idCols 0);
          val2 = get_prop row (nth_key idCols 1)
      in if \<not> truthy val1 \<or> \<not> truthy val2 then JNull
         else JStr (''id:'' @ ToString val1 @ '','' @ ToString val2))"

definition createThreeIdGetter :: "string list \<Rightarrow> obj \<Rightarrow> jsval" where
  "createThreeIdGetter idCols row =
     (let val1 = get_prop row (nth_key idCols 0);
          val2 = get_prop row (nth_key idCols 1);
          val3 = get_prop row (nth_key idCols 2)
      in if \<not> truthy val1 \<or> \<not> truthy val2 \<or> \<not> truthy val3 then JNull
         else JStr (''id:'' @ ToString val1 @ '','' @ ToString val2 @ '','' @ ToString val3))"

text \<open>
  The loop of \<open>createNIdGetter\<close>: \<open>i\<close> is the index of the next column, \<open>acc\<close> the
  identifier built so far.
\<close>

fun nIdLoop :: "obj \<Rightarrow> nat \<Rightarrow> string \<Rightarrow> string list \<Rightarrow> jsval" where
  "nIdLoop row i acc [] = JStr acc"
| "nIdLoop row i acc (c # cs) =
     (let val = get_prop row c
      in if \<not> truthy val then JNull
         else nIdLoop row (i + 1) (acc @ (if i > 0 then '','' else '''') @ ToString val) cs)"

definition createNIdGetter :: "string list \<Rightarrow> obj \<Rightarrow> jsval" where
  "createNIdGetter idCols row = nIdLoop row 0 ''id:'' idCols"

definition createIdGetter :: "rjb \<Rightarrow> modelClass \<Rightarrow> string \<Rightarrow> obj \<Rightarrow> jsval" where
  "createIdGetter b mc path =
     (let idCols = map (\<lambda>col. joinPath b path col) (idColumns mc)
      in if length idCols = 1 then createSingleIdGetter idCols
         else if length idCols = 2 then createTwoIdGetter idCols
         else if length idCols = 3 then createThreeIdGetter idCols
         else createNIdGetter idCols)"

section \<open>RelationJoinBuilder: path information\<close>

text \<open>
  A \<open>PathInfo\<close> object. The first field tells the class: \<open>True\<close> for \<open>OneToOnePathInfo\<close>.
  \<open>encParentPath\<close> is \<open>null\<close> (here \<open>None\<close>) for the root. The children are the entries of
  \<open>children\<close>, relation name and child, in insertion order.
\<close>

datatype pathInfo = PathInfo
  (pi_oneToOne: bool)
  (pi_path: string)
  (pi_encPath: string)
  (pi_encParentPath: "string option")
  (pi_modelClass: modelClass)
  (pi_relation: "relation option")
  (pi_omitCols: "string list")
  (pi_idGetter: "obj \<Rightarrow> jsval")
  (pi_children: "(string \<times> pathInfo) list")

section \<open>RelationJoinBuilder: the select list\<close>

definition idLengthLimit :: nat where
  "idLengthLimit = 63"

record select =
  sel_col :: string
  sel_alias :: string

text \<open>
  The first loop of \<open>buildSelects\<close>, over the columns of the table: the selects pushed
  and the columns recorded in \<open>info.omitCols\<close>. \<open>selectFilter\<close> is the caller's predicate;
  \<open>tbl\<close> is \<open>info.encPath || rootTable\<close>.
\<close>

fun columnSelects ::
  "rjb \<Rightarrow> (string \<Rightarrow> bool) \<Rightarrow> string list \<Rightarrow> string \<Rightarrow> string \<Rightarrow> string list \<Rightarrow>
   select list \<times> string list \<Rightarrow> select list \<times> string list" where
  "columnSelects b selectFilter idCols tbl encPath [] acc = acc"
| "columnSelects b selectFilter idCols tbl encPath (col # cols) (selects, omitCols) =
     (let filterPassed = selectFilter col;
          isIdColumn = (col \<in> set idCols)
      in if filterPassed \<or> isIdColumn
         then columnSelects b selectFilter idCols tbl encPath cols
                (selects @ [\<lparr>sel_col = tbl @ ''.'' @ col, sel_alias = joinPath b encPath col\<rparr>],
                 if \<not> filterPassed then (if col \<in> set omitCols then omitCols else omitCols @ [col])
                 else omitCols)
         else columnSelects b selectFilter idCols tbl encPath cols (selects, omitCols))"

text \<open>The second loop, over the extra columns of the join table.\<close>

fun extraSelects ::
  "rjb \<Rightarrow> (string \<Rightarrow> bool) \<Rightarrow> string \<Rightarrow> string \<Rightarrow> joinTableExtra list \<Rightarrow> select list \<Rightarrow> select list" where
  "extraSelects b selectFilter joinTable encPath [] selects = selects"
| "extraSelects b selectFilter joinTable encPath (extra # extras) selects =
     (if selectFilter (joinTableCol extra)
      then extraSelects b selectFilter joinTable encPath extras
             (selects @ [\<lparr>sel_col = joinTable @ ''.'' @ joinTableCol extra,
                          sel_alias = joinPath b encPath (aliasCol extra)\<rparr>])
      else extraSelects b selectFilter joinTable encPath extras selects)"

text \<open>
  The select list that \<open>buildSelects\<close> computes before it checks the aliases, with the
  builder and the omitted columns as the two loops leave them. \<open>None\<close> is the
  \<open>TypeError\<close> of reading \<open>.columns\<close> when the table has no entry in
  \<open>RelationJoinBuilder.columnInfo\<close>.
\<close>

definition computeSelects ::
  "rjb \<Rightarrow> (string \<rightharpoonup> string list) \<Rightarrow> string \<Rightarrow> (string \<Rightarrow> bool) \<Rightarrow> modelClass \<Rightarrow>
   relation option \<Rightarrow> pathInfo \<Rightarrow> (select list \<times> string list \<times> rjb) option" where
  "computeSelects b columnInfo rootTable selectFilter mc rel info =
     (case columnInfo (tableName mc) of
        None \<Rightarrow> None
      | Some columns \<Rightarrow>
          (let tbl = (if pi_encPath info \<noteq> [] then pi_encPath info else rootTable);
               (selects, omitCols) =
                  columnSelects b selectFilter (idColumns mc) tbl (pi_encPath info) columns
                    ([], pi_omitCols info)
           in (case rel of
                 None \<Rightarrow> Some (selects, omitCols, b)
               | Some r \<Rightarrow>
                   (case rel_joinTableExtras r of
                      None \<Rightarrow> Some (selects, omitCols, b)
                    | Some extras \<Rightarrow>
                        (let (joinTable, b') = encode b (joinTableForPath (pi_path info))
                         in Some (extraSelects b' selectFilter joinTable (pi_encPath info) extras selects,
                                  omitCols, b'))))))"

text \<open>
  The state that \<open>buildSelects\<close> works on: the builder's alias tables, the omitted
  columns of the path, and the query builder, of which the model keeps the list of
  the select expressions added so far. \<open>hasSelection\<close> is the query builder's own test,
  a function of its state and of a column.
\<close>

record selectState =
  ss_rjb :: rjb
  ss_omitCols :: "string list"
  ss_selected :: "string list"

definition buildSelects ::
  "(string \<rightharpoonup> string list) \<Rightarrow> string \<Rightarrow> (string list \<Rightarrow> string \<Rightarrow> bool) \<Rightarrow>
   (string \<Rightarrow> bool) \<Rightarrow> modelClass \<Rightarrow> relation option \<Rightarrow> pathInfo \<Rightarrow>
   rjb \<Rightarrow> string list \<Rightarrow> error option \<times> selectState" where
  "buildSelects columnInfo rootTable hasSelection selectFilter mc rel info b selected =
     (case computeSelects b columnInfo rootTable selectFilter mc rel info of
        None \<Rightarrow>
          (Some TypeError,
           \<lparr>ss_rjb = b, ss_omitCols = pi_omitCols info, ss_selected = selected\<rparr>)
      | Some (selects, omitCols, b') \<Rightarrow>
          (let tooLongAliases = filter (\<lambda>s. length (sel_alias s) > idLengthLimit) selects
           in if tooLongAliases \<noteq> []
              then (Some (ValidationError
                      (''identifier '' @ sel_alias (hd tooLongAliases) @ '' is over '' @
                       show_nat idLengthLimit @ '' characters long '' @
                       ''and would be truncated by the database engine.'')),
                    \<lparr>ss_rjb = b', ss_omitCols = omitCols, ss_selected = selected\<rparr>)
              else (None,
                    \<lparr>ss_rjb = b', ss_omitCols = omitCols,
                     ss_selected = selected @
                       map (\<lambda>s. sel_col s @ '' as '' @ sel_alias s)
                         (filter (\<lambda>s. \<not> hasSelection selected (sel_col s)) selects)\<rparr>)))"

section \<open>The store of objects\<close>

text \<open>
  Objects are shared and updated in place: a model is reached from the branch that
  holds it and from the stack of the current row, a graph node's model from the node
  and from the table insertion. The store maps an address to a cell, a plain object or
  an array; \<open>JRef a\<close> is a reference to cell \<open>a\<close>. A new cell gets the next address.
\<close>

datatype cell = Obj obj | Arr "jsval list"

type_synonym heap = "cell list"

definition alloc :: "heap \<Rightarrow> cell \<Rightarrow> nat \<times> heap" where
  "alloc h c = (length h, h @ [c])"

text \<open>
  \<open>receiver[k]\<close>. Reading a property of \<open>undefined\<close> or \<open>null\<close> raises a \<open>TypeError\<close>. The
  keys read in the modelled code are relation names, column names and identifiers
  \<open>id:...\<close>; a primitive, a function or an array has no such property.
\<close>

fun readProp :: "heap \<Rightarrow> jsval \<Rightarrow> string \<Rightarrow> error + jsval" where
  "readProp h JUndefined k = Inl TypeError"
| "readProp h JNull k = Inl TypeError"
| "readProp h (JRef a) k =
     (if a < length h
      then (case h ! a of Obj ob \<Rightarrow> Inr (get_prop ob k) | Arr xs \<Rightarrow> Inr JUndefined)
      else Inr JUndefined)"
| "readProp h v k = Inr JUndefined"

text \<open>
  \<open>receiver[k] = v\<close> in strict mode: a \<open>TypeError\<close> for \<open>undefined\<close>, \<open>null\<close> and the
  primitives. The modelled code writes to plain objects only; functions are taken with
  the primitives, and a write to an array cell or through a dangling reference, which
  do not occur, leaves the store as it is.
\<close>

fun writeProp :: "heap \<Rightarrow> jsval \<Rightarrow> string \<Rightarrow> jsval \<Rightarrow> error + heap" where
  "writeProp h (JRef a) k v =
     (if a < length h
      then (case h ! a of Obj ob \<Rightarrow> Inr (h[a := Obj (set_prop ob k v)]) | Arr xs \<Rightarrow> Inr h)
      else Inr h)"
| "writeProp h r k v = Inl TypeError"

text \<open>\<open>_.values\<close>: of an object or array its values, of a string its characters, else nothing.\<close>

fun valuesOf :: "heap \<Rightarrow> jsval \<Rightarrow> jsval list" where
  "valuesOf h (JRef a) =
     (if a < length h then (case h ! a of Obj ob \<Rightarrow> obj_values ob | Arr xs \<Rightarrow> xs) else [])"
| "valuesOf h (JStr s) = map (\<lambda>c. JStr [c]) s"
| "valuesOf h v = []"

definition isArray :: "heap \<Rightarrow> jsval \<Rightarrow> bool" where
  "isArray h v =
     (case v of
        JRef a \<Rightarrow> a < length h \<and> (case h ! a of Obj ob \<Rightarrow> False | Arr xs \<Rightarrow> True)
      | _ \<Rightarrow> False)"

section \<open>RelationJoinBuilder: from rows to a tree\<close>

text \<open>\<open>this.relation.name\<close>; the relation of the root is \<open>null\<close>.\<close>

definition relName :: "pathInfo \<Rightarrow> error + string" where
  "relName pInfo = (case pi_relation pInfo of None \<Rightarrow> Inl TypeError | Some r \<Rightarrow> Inr (rel_name r))"

text \<open>
  The five methods of \<open>PathInfo\<close> and their overrides in \<open>OneToOnePathInfo\<close>. Each takes
  the store and returns the store it leaves.
\<close>

definition getBranch :: "pathInfo \<Rightarrow> heap \<Rightarrow> jsval \<Rightarrow> error + jsval" where
  "getBranch pInfo h parentModel =
     (if pi_oneToOne pInfo then Inr parentModel
      else (case relName pInfo of
              Inl e \<Rightarrow> Inl e
            | Inr name \<Rightarrow> readProp h parentModel name))"

definition createBranch :: "pathInfo \<Rightarrow> heap \<Rightarrow> jsval \<Rightarrow> error + jsval \<times> heap" where
  "createBranch pInfo h parentModel =
     (if pi_oneToOne pInfo then Inr (parentModel, h)
      else (let (a, h1) = alloc h (Obj [])
            in (case relName pInfo of
                  Inl e \<Rightarrow> Inl e
                | Inr name \<Rightarrow>
                    (case writeProp h1 parentModel name (JRef a) of
                       Inl e \<Rightarrow> Inl e
                     | Inr h2 \<Rightarrow> Inr (JRef a, h2)))))"

definition getModelFromBranch :: "pathInfo \<Rightarrow> heap \<Rightarrow> jsval \<Rightarrow> jsval \<Rightarrow> error + jsval" where
  "getModelFromBranch pInfo h branch ident =
     (if pi_oneToOne pInfo
      then (case relName pInfo of
              Inl e \<Rightarrow> Inl e
            | Inr name \<Rightarrow> readProp h branch name)
      else readProp h branch (ToString ident))"

definition setModelToBranch :: "pathInfo \<Rightarrow> heap \<Rightarrow> jsval \<Rightarrow> jsval \<Rightarrow> jsval \<Rightarrow> error + heap" where
  "setModelToBranch pInfo h branch ident model =
     (if pi_oneToOne pInfo
      then (case relName pInfo of
              Inl e \<Rightarrow> Inl e
            | Inr name \<Rightarrow> writeProp h branch name model)
      else writeProp h branch (ToString ident) model)"

definition finalizeBranch :: "pathInfo \<Rightarrow> heap \<Rightarrow> jsval \<Rightarrow> jsval \<Rightarrow> error + jsval \<times> heap" where
  "finalizeBranch pInfo h branch parentModel =
     (if pi_oneToOne pInfo
      then (let v = (if truthy branch then branch else JNull)
            in (case relName pInfo of
                  Inl e \<Rightarrow> Inl e
                | Inr name \<Rightarrow>
                    (case writeProp h parentModel name v of
                       Inl e \<Rightarrow> Inl e
                     | Inr h1 \<Rightarrow> Inr (v, h1))))
      else (let (a, h1) = alloc h (Arr (valuesOf h branch))
            in (case relName pInfo of
                  Inl e \<Rightarrow> Inl e
                | Inr name \<Rightarrow>
                    (case writeProp h1 parentModel name (JRef a) of
                       Inl e \<Rightarrow> Inl e
                     | Inr h2 \<Rightarrow> Inr (JRef a, h2)))))"

text \<open>
  \<open>createKeyInfo\<close>. \<open>lastIndexOf\<close> gives the last position at which the separator
  occurs (\<open>None\<close> for \<open>-1\<close>). A key with no separator is a column of the root; otherwise
  the key is cut at the separator, the column starting one character after its position,
  and the path is decoded. A path with no \<open>PathInfo\<close> raises a \<open>TypeError\<close>; a path that
  \<open>decode\<close> does not know is \<open>undefined\<close>, looked up as the key \<open>undefined\<close>.
\<close>

definition lastIndexOf :: "string \<Rightarrow> string \<Rightarrow> nat option" where
  "lastIndexOf s sp =
     (case filter (\<lambda>i. take (length sp) (drop i s) = sp) (rev [0 ..< length s + 1 - length sp]) of
        [] \<Rightarrow> None
      | i # _ \<Rightarrow> Some i)"

record keyInfo =
  ki_encPath :: string
  ki_key :: string
  ki_col :: string

fun keyInfoLoop ::
  "rjb \<Rightarrow> (string \<times> pathInfo) list \<Rightarrow> string list \<Rightarrow> keyInfo list \<Rightarrow> error + keyInfo list" where
  "keyInfoLoop b pathInfos [] acc = Inr acc"
| "keyInfoLoop b pathInfos (key # keys) acc =
     (case lastIndexOf key (sep b) of
        None \<Rightarrow>
          (case map_of pathInfos '''' of
             None \<Rightarrow> Inl TypeError
           | Some pInfo \<Rightarrow>
               keyInfoLoop b pathInfos keys
                 (if key \<notin> set (pi_omitCols pInfo)
                  then acc @ [\<lparr>ki_encPath = pi_encPath pInfo, ki_key = key, ki_col = key\<rparr>]
                  else acc))
      | Some sepIdx \<Rightarrow>
          (let encPath = take sepIdx key;
               path = (case decode b encPath of None \<Rightarrow> ''undefined'' | Some p \<Rightarrow> p);
               col = drop (sepIdx + 1) key
           in (case map_of pathInfos path of
                 None \<Rightarrow> Inl TypeError
               | Some pInfo \<Rightarrow>
                   keyInfoLoop b pathInfos keys
                     (if col \<notin> set (pi_omitCols pInfo)
                      then acc @ [\<lparr>ki_encPath = pi_encPath pInfo, ki_key = key, ki_col = col\<rparr>]
                      else acc))))"

text \<open>\<open>_.groupBy\<close> by encoded path: a path with no entry has no group.\<close>

definition groupByPath :: "keyInfo list \<Rightarrow> string \<Rightarrow> keyInfo list option" where
  "groupByPath kis p =
     (let g = filter (\<lambda>k. ki_encPath k = p) kis in if g = [] then None else Some g)"

definition createKeyInfo ::
  "rjb \<Rightarrow> (string \<times> pathInfo) list \<Rightarrow> obj list \<Rightarrow> error + (string \<Rightarrow> keyInfo list option)" where
  "createKeyInfo b pathInfos rows =
     (case rows of
        [] \<Rightarrow> Inl TypeError
      | row0 # _ \<Rightarrow>
          (case keyInfoLoop b pathInfos (obj_keys row0) [] of
             Inl e \<Rightarrow> Inl e
           | Inr kis \<Rightarrow> Inr (groupByPath kis)))"

text \<open>
  \<open>JSON.parse\<close>, a function of the language and a parameter here: for a text and the
  next free address of the store it gives the value and the cells of the objects and
  arrays of the value, or \<open>None\<close> when it throws. \<open>tryParseJson\<close> gives \<open>undefined\<close> then.
\<close>

type_synonym jsonParse = "string \<Rightarrow> nat \<Rightarrow> (jsval \<times> cell list) option"

definition tryParseJson :: "jsonParse \<Rightarrow> heap \<Rightarrow> string \<Rightarrow> jsval \<times> heap" where
  "tryParseJson parse h s =
     (case parse s (length h) of
        None \<Rightarrow> (JUndefined, h)
      | Some (v, cells) \<Rightarrow> (v, h @ cells))"

text \<open>
  \<open>$parseDatabaseJson\<close>: every JSON attribute of the class whose value is a string is
  replaced by the parsed value, unless parsing fails.
\<close>

fun parseDatabaseJson :: "jsonParse \<Rightarrow> string list \<Rightarrow> heap \<Rightarrow> obj \<Rightarrow> obj \<times> heap" where
  "parseDatabaseJson parse [] h json = (json, h)"
| "parseDatabaseJson parse (attr # attrs) h json =
     (case get_prop json attr of
        JStr s \<Rightarrow>
          (let (parsed, h1) = tryParseJson parse h s
           in parseDatabaseJson parse attrs h1
                (if parsed \<noteq> JUndefined then set_prop json attr parsed else json))
      | _ \<Rightarrow> parseDatabaseJson parse attrs h json)"

text \<open>
  \<open>fromDatabaseJson\<close>: a new model, an object with no properties, on which
  \<open>$setDatabaseJson\<close> parses the JSON attributes and then sets every key of the result.
\<close>

definition fromDatabaseJson :: "jsonParse \<Rightarrow> modelClass \<Rightarrow> heap \<Rightarrow> obj \<Rightarrow> jsval \<times> heap" where
  "fromDatabaseJson parse mc h json =
     (let (a, h0) = alloc h (Obj []);
          (json1, h1) = parseDatabaseJson parse (jsonAttributes mc) h0 json
      in (JRef a, h1[a := Obj (foldl (\<lambda>model kv. set_prop model (fst kv) (snd kv)) [] json1)]))"

text \<open>
  \<open>createModel\<close>: the columns of the path are copied from the row into a new object,
  from which \<open>fromDatabaseJson\<close> makes the model. A path with no group raises a
  \<open>TypeError\<close> (\<open>keyInfo.length\<close> of \<open>undefined\<close>).
\<close>

definition createModel ::
  "jsonParse \<Rightarrow> heap \<Rightarrow> obj \<Rightarrow> pathInfo \<Rightarrow> (string \<Rightarrow> keyInfo list option) \<Rightarrow>
   error + jsval \<times> heap" where
  "createModel parse h row pInfo keyInfoByPath =
     (case keyInfoByPath (pi_encPath pInfo) of
        None \<Rightarrow> Inl TypeError
      | Some keyInfos \<Rightarrow>
          (let json = foldl (\<lambda>js kInfo. set_prop js (ki_col kInfo) (get_prop row (ki_key kInfo))) [] keyInfos
           in Inr (fromDatabaseJson parse (pi_modelClass pInfo) h json)))"

text \<open>
  The state of the row loop of \<open>rowsToTree\<close>: the store, the \<open>stack\<close> object (encoded
  path to model) and \<open>curBranch\<close>. The stack is kept from row to row; \<open>curBranch\<close> is
  set to the tree at the start of every row.
\<close>

record treeState =
  ts_heap :: heap
  ts_stack :: "string \<rightharpoonup> jsval"
  ts_curBranch :: jsval

definition stackGet :: "treeState \<Rightarrow> string option \<Rightarrow> jsval" where
  "stackGet st encPath =
     (case ts_stack st (case encPath of None \<Rightarrow> ''null'' | Some p \<Rightarrow> p) of
        None \<Rightarrow> JUndefined
      | Some v \<Rightarrow> v)"

text \<open>
  The body of the inner loop, one path of one row, in the three parts of the source:
  the branch under the parent (only for a path with a relation; the root keeps
  \<open>curBranch\<close>), the model within the branch (found, or created from the row and
  stored), and the stack entry of the path.
\<close>

definition resolveBranch :: "pathInfo \<Rightarrow> treeState \<Rightarrow> error + jsval \<times> heap" where
  "resolveBranch pInfo st =
     (if pi_relation pInfo \<noteq> None
      then (let parentModel = stackGet st (pi_encParentPath pInfo)
            in (case getBranch pInfo (ts_heap st) parentModel of
                  Inl e \<Rightarrow> Inl e
                | Inr br \<Rightarrow>
                    (if \<not> truthy br then createBranch pInfo (ts_heap st) parentModel
                     else Inr (br, ts_heap st))))
      else Inr (ts_curBranch st, ts_heap st))"

definition locateOrCreate ::
  "jsonParse \<Rightarrow> (string \<Rightarrow> keyInfo list option) \<Rightarrow> obj \<Rightarrow> pathInfo \<Rightarrow> heap \<Rightarrow> jsval \<Rightarrow>
   jsval \<Rightarrow> error + jsval \<times> heap" where
  "locateOrCreate parse keyInfoByPath row pInfo h curBranch ident =
     (case getModelFromBranch pInfo h curBranch ident of
        Inl e \<Rightarrow> Inl e
      | Inr found \<Rightarrow>
          (if \<not> truthy found
           then (case createModel parse h row pInfo keyInfoByPath of
                   Inl e \<Rightarrow> Inl e
                 | Inr (model, h2) \<Rightarrow>
                     (case setModelToBranch pInfo h2 curBranch ident model of
                        Inl e \<Rightarrow> Inl e
                      | Inr h3 \<Rightarrow> Inr (model, h3)))
           else Inr (found, h)))"

definition pathStep ::
  "jsonParse \<Rightarrow> (string \<Rightarrow> keyInfo list option) \<Rightarrow> obj \<Rightarrow> pathInfo \<Rightarrow> treeState \<Rightarrow>
   error + treeState" where
  "pathStep parse keyInfoByPath row pInfo st =
     (let ident = pi_idGetter pInfo row
      in if \<not> truthy ident then Inr st
         else
           (case resolveBranch pInfo st of
              Inl e \<Rightarrow> Inl e
            | Inr (curBranch, h1) \<Rightarrow>
                (case locateOrCreate parse keyInfoByPath row pInfo h1 curBranch ident of
                   Inl e \<Rightarrow> Inl e
                 | Inr (model, h4) \<Rightarrow>
                     Inr \<lparr>ts_heap = h4,
                          ts_stack = (ts_stack st)(pi_encPath pInfo \<mapsto> model),
                          ts_curBranch = curBranch\<rparr>)))"

fun pathLoop ::
  "jsonParse \<Rightarrow> (string \<Rightarrow> keyInfo list option) \<Rightarrow> obj \<Rightarrow> pathInfo list \<Rightarrow> treeState \<Rightarrow>
   error + treeState" where
  "pathLoop parse keyInfoByPath row [] st = Inr st"
| "pathLoop parse keyInfoByPath row (pInfo # pInfos) st =
     (case pathStep parse keyInfoByPath row pInfo st of
        Inl e \<Rightarrow> Inl e
      | Inr st1 \<Rightarrow> pathLoop parse keyInfoByPath row pInfos st1)"

fun rowLoop ::
  "jsonParse \<Rightarrow> (string \<Rightarrow> keyInfo list option) \<Rightarrow> jsval \<Rightarrow> pathInfo list \<Rightarrow> obj list \<Rightarrow>
   treeState \<Rightarrow> error + treeState" where
  "rowLoop parse keyInfoByPath tree pInfos [] st = Inr st"
| "rowLoop parse keyInfoByPath tree pInfos (row # rows) st =
     (case pathLoop parse keyInfoByPath row pInfos (st\<lparr>ts_curBranch := tree\<rparr>) of
        Inl e \<Rightarrow> Inl e
      | Inr st1 \<Rightarrow> rowLoop parse keyInfoByPath tree pInfos rows st1)"

text \<open>
  \<open>finalize\<close> and \<open>finalizeOne\<close>. \<open>finalize\<close> runs \<open>finalizeOne\<close> on every element of an
  array, or on a single truthy value; \<open>finalizeOne\<close> goes through the children of the
  path, finalizes the branch found under the relation's name and descends into it.
  The recursion follows the tree of \<open>PathInfo\<close> objects.
\<close>

lemma size_pi_children:
  "size_list (size_prod (\<lambda>_. 0) size) (pi_children pInfo) < size pInfo"
  by (cases pInfo) simp

function finalize :: "pathInfo \<Rightarrow> jsval \<Rightarrow> heap \<Rightarrow> error + heap"
  and finalizeModels :: "(string \<times> pathInfo) list \<Rightarrow> jsval list \<Rightarrow> heap \<Rightarrow> error + heap"
  and finalizeOne :: "(string \<times> pathInfo) list \<Rightarrow> jsval \<Rightarrow> heap \<Rightarrow> error + heap" where
  "finalize pInfo models h =
     (if isArray h models then finalizeModels (pi_children pInfo) (valuesOf h models) h
      else if truthy models then finalizeOne (pi_children pInfo) models h
      else Inr h)"
| "finalizeModels rels [] h = Inr h"
| "finalizeModels rels (m # ms) h =
     (case finalizeOne rels m h of
        Inl e \<Rightarrow> Inl e
      | Inr h1 \<Rightarrow> finalizeModels rels ms h1)"
| "finalizeOne [] model h = Inr h"
| "finalizeOne ((name, childPathInfo) # rels) model h =
     (case readProp h model name of
        Inl e \<Rightarrow> Inl e
      | Inr branch \<Rightarrow>
          (case finalizeBranch childPathInfo h branch model of
             Inl e \<Rightarrow> Inl e
           | Inr (finalized, h1) \<Rightarrow>
               (case finalize childPathInfo finalized h1 of
                  Inl e \<Rightarrow> Inl e
                | Inr h2 \<Rightarrow> finalizeOne rels model h2)))"
  by pat_completeness auto
termination
  by (relation "inv_image (less_than <*lex*> less_than <*lex*> less_than)
       (\<lambda>x. case x of
          Inl (pInfo, models, h) \<Rightarrow> (size pInfo, 2, 0)
        | Inr (Inl (rels, ms, h)) \<Rightarrow> (size_list (size_prod (\<lambda>_. 0) size) rels, 1, length ms)
        | Inr (Inr (rels, model, h)) \<Rightarrow> (size_list (size_prod (\<lambda>_. 0) size) rels, 0, 0))")
     (auto simp: size_pi_children)

text \<open>
  \<open>rowsToTree\<close>. Empty input is returned as it is. Otherwise the tree object is created,
  the rows are processed, and the values of the tree, an array of the root models,
  are finalized from the first \<open>PathInfo\<close> and returned. The result is the reference
  to that array with the store. \<open>pathInfos\<close> is \<open>this.pathInfo\<close>, path to \<open>PathInfo\<close>, in
  insertion order. With no \<open>PathInfo\<close> at all \<open>pathInfo[0]\<close> is \<open>undefined\<close> and
  \<open>finalize\<close> raises a \<open>TypeError\<close>.
\<close>

definition rowsToTree ::
  "jsonParse \<Rightarrow> rjb \<Rightarrow> (string \<times> pathInfo) list \<Rightarrow> obj list \<Rightarrow> error + jsval \<times> heap" where
  "rowsToTree parse b pathInfos rows =
     (if rows = [] then Inr (JRef 0, [Arr []])
      else
        (case createKeyInfo b pathInfos rows of
           Inl e \<Rightarrow> Inl e
         | Inr keyInfoByPath \<Rightarrow>
             (let pathInfo = map snd pathInfos;
                  (t, h0) = alloc [] (Obj [])
              in (case rowLoop parse keyInfoByPath (JRef t) pathInfo rows
                         \<lparr>ts_heap = h0, ts_stack = Map.empty, ts_curBranch = JRef t\<rparr> of
                    Inl e \<Rightarrow> Inl e
                  | Inr st \<Rightarrow>
                      (let (r, h1) = alloc (ts_heap st) (Arr (valuesOf (ts_heap st) (JRef t)))
                       in (case pathInfo of
                             [] \<Rightarrow> Inl TypeError
                           | root # _ \<Rightarrow>
                               (case finalize root (JRef r) h1 of
                                  Inl e \<Rightarrow> Inl e
                                | Inr h2 \<Rightarrow> Inr (JRef r, h2))))))))"

text \<open>
  Reading a value back from the store as a term, to a given depth: what the caller of
  \<open>rowsToTree\<close> sees when it walks the result.
\<close>

datatype tree = TVal jsval | TObj "(string \<times> tree) list" | TArr "tree list"

fun reify :: "nat \<Rightarrow> heap \<Rightarrow> jsval \<Rightarrow> tree" where
  "reify 0 h v = TVal v"
| "reify (Suc n) h (JRef a) =
     (if a < length h
      then (case h ! a of
              Obj ob \<Rightarrow> TObj (map (\<lambda>kv. (fst kv, reify n h (snd kv))) ob)
            | Arr xs \<Rightarrow> TArr (map (reify n h) xs))
      else TVal (JRef a))"
| "reify (Suc n) h v = TVal v"

section \<open>GraphInserter: the dependency graph\<close>

text \<open>
  \<open>Model.uidProp\<close> and \<open>Model.uidRefProp\<close>. The code reads them through the class of a
  model or of a table insertion; the model classes here keep the values of \<open>Model\<close>.
\<close>

definition uidProp :: string where
  "uidProp = ''#id''"

definition uidRefProp :: string where
  "uidRefProp = ''#ref''"

text \<open>
  The graph that \<open>DependencyGraph.build\<close> hands over, which is not part of the modelled
  sources and is taken as given. A node is an object that the code updates in place
  (\<open>handled\<close>, \<open>numHandledNeeds\<close>) and reaches from \<open>graph.nodes\<close>, from \<open>graph.nodesById\<close>
  and from the dependencies of other nodes: a reference to a node is its index in
  \<open>graph.nodes\<close>. A dependency names a node and carries its \<open>resolve\<close> method, a
  function of the inserted model with an effect on the store (\<open>None\<close> when it throws). A
  many-to-many connection names the related node, the optional reference node and the
  relation; of the relation the code uses the join table, the owner properties, the
  extras, the model class of the join table and \<open>createJoinModels\<close>, here for one
  related model: the owner's values and the related model give the join row.
\<close>

record dependency =
  dep_node :: nat
  dep_resolve :: "jsval \<Rightarrow> heap \<Rightarrow> heap option"

record manyToManyRelation =
  mm_joinTable :: string
  mm_ownerProp :: "string list"
  mm_joinTableExtras :: "joinTableExtra list"
  mm_joinTableModelClass :: modelClass
  mm_createJoinModel :: "jsval list \<Rightarrow> obj \<Rightarrow> obj"

record connection =
  conn_node :: nat
  conn_refNode :: "nat option"
  conn_relation :: manyToManyRelation

record node =
  node_id :: string
  node_model :: jsval
  node_modelClass :: modelClass
  needs :: "dependency list"
  isNeededBy :: "dependency list"
  manyToManyConnections :: "connection list"
  handled :: bool
  numHandledNeeds :: nat

record graph =
  nodes :: "node list"
  nodesById :: "string \<rightharpoonup> nat"
  inputNodesById :: "string \<rightharpoonup> nat"

text \<open>
  A \<open>TableInsertion\<close>: the model class, the flag of a join table, the models and the
  parallel list \<open>isInputModel\<close>. A batch is an object from table names to table
  insertions, with its keys in insertion order.
\<close>

record tableInsertion =
  ti_modelClass :: modelClass
  isJoinTableInsertion :: bool
  ti_models :: "jsval list"
  isInputModel :: "bool list"

type_synonym batch = "(string \<times> tableInsertion) list"

definition newTableInsertion :: "modelClass \<Rightarrow> bool \<Rightarrow> tableInsertion" where
  "newTableInsertion mc isJoin =
     \<lparr>ti_modelClass = mc, isJoinTableInsertion = isJoin, ti_models = [], isInputModel = []\<rparr>"

text \<open>\<open>batch[k] = v\<close>: an existing key keeps its place, a new key is appended.\<close>

fun batchPut :: "batch \<Rightarrow> string \<Rightarrow> tableInsertion \<Rightarrow> batch" where
  "batchPut [] k v = [(k, v)]"
| "batchPut ((k', v') # b) k v = (if k' = k then (k, v) # b else (k', v') # batchPut b k v)"

text \<open>
  The state of a \<open>GraphInserter\<close>: the graph, the \<open>done\<close> flag and the store that holds
  the models. \<open>this.models\<close>, the input, is a reference that never changes and is a
  parameter of \<open>execute\<close>.
\<close>

record inserterState =
  gi_graph :: graph
  gi_done :: bool
  gi_store :: heap

section \<open>GraphInserter: batches\<close>

text \<open>
  \<open>_createBatch\<close>: the scan over \<open>graph.nodes\<close>. A node is taken when it is not handled
  and \<open>needs.length === numHandledNeeds\<close>; its model is pushed to the table insertion
  of its table, which is created at the first node of the table.
\<close>

fun createBatchLoop :: "graph \<Rightarrow> node list \<Rightarrow> batch \<Rightarrow> batch" where
  "createBatchLoop g [] batch = batch"
| "createBatchLoop g (nd # nds) batch =
     (if \<not> handled nd \<and> length (needs nd) = numHandledNeeds nd
      then (let tn = tableName (node_modelClass nd);
                tableInsertion = (case map_of batch tn of
                                    None \<Rightarrow> newTableInsertion (node_modelClass nd) False
                                  | Some ti \<Rightarrow> ti)
            in createBatchLoop g nds
                 (batchPut batch tn
                    (tableInsertion
                       \<lparr>ti_models := ti_models tableInsertion @ [node_model nd],
                        isInputModel := isInputModel tableInsertion @
                                          [inputNodesById g (node_id nd) \<noteq> None]\<rparr>)))
      else createBatchLoop g nds batch)"

definition createBatch :: "graph \<Rightarrow> batch" where
  "createBatch g = createBatchLoop g (nodes g) []"

text \<open>
  \<open>_markBatchHandled\<close>. For every model of the batch the node is found by the model's
  uid; a uid with no node raises a \<open>TypeError\<close>. Every dependency of \<open>isNeededBy\<close>
  increments \<open>numHandledNeeds\<close> of the node it names, then the node is marked handled.
\<close>

fun incrementNeeds :: "node list \<Rightarrow> dependency list \<Rightarrow> node list" where
  "incrementNeeds ns [] = ns"
| "incrementNeeds ns (dep # deps) =
     incrementNeeds
       (ns[dep_node dep := (ns ! dep_node dep)\<lparr>numHandledNeeds := numHandledNeeds (ns ! dep_node dep) + 1\<rparr>])
       deps"

fun markModelsHandled :: "heap \<Rightarrow> graph \<Rightarrow> jsval list \<Rightarrow> error + graph" where
  "markModelsHandled h g [] = Inr g"
| "markModelsHandled h g (model # models) =
     (case readProp h model uidProp of
        Inl e \<Rightarrow> Inl e
      | Inr ident \<Rightarrow>
          (case nodesById g (ToString ident) of
             None \<Rightarrow> Inl TypeError
           | Some n \<Rightarrow>
               (let ns1 = incrementNeeds (nodes g) (isNeededBy (nodes g ! n));
                    ns2 = ns1[n := (ns1 ! n)\<lparr>handled := True\<rparr>]
                in markModelsHandled h (g\<lparr>nodes := ns2\<rparr>) models)))"

definition markBatchHandled :: "heap \<Rightarrow> graph \<Rightarrow> batch \<Rightarrow> error + graph" where
  "markBatchHandled h g batch = markModelsHandled h g (concat (map (\<lambda>kv. ti_models (snd kv)) batch))"

section \<open>GraphInserter: join rows\<close>

text \<open>
  \<open>_.uniqBy\<close> and \<open>_.uniq\<close> keep the first element of every class, in order.
\<close>

fun uniqByLoop :: "('a \<Rightarrow> 'b) \<Rightarrow> 'b list \<Rightarrow> 'a list \<Rightarrow> 'a list" where
  "uniqByLoop f seen [] = []"
| "uniqByLoop f seen (x # xs) =
     (if f x \<in> set seen then uniqByLoop f seen xs else x # uniqByLoop f (f x # seen) xs)"

definition uniqBy :: "('a \<Rightarrow> 'b) \<Rightarrow> 'a list \<Rightarrow> 'a list" where
  "uniqBy f xs = uniqByLoop f [] xs"

definition uniq :: "'a list \<Rightarrow> 'a list" where
  "uniq xs = uniqBy (\<lambda>x. x) xs"

text \<open>
  \<open>$propKey\<close>: the values of the properties, as strings, with commas between them. The
  source has a case for one, two and three properties and a loop for the rest.
\<close>

fun propKeyLoop :: "obj \<Rightarrow> string list \<Rightarrow> string \<Rightarrow> string" where
  "propKeyLoop ob [] key = key"
| "propKeyLoop ob (p # ps) key =
     propKeyLoop ob ps (key @ ToString (get_prop ob p) @ (if ps \<noteq> [] then '','' else ''''))"

definition propKey :: "obj \<Rightarrow> string list \<Rightarrow> string" where
  "propKey ob props =
     (case props of
        [p0] \<Rightarrow> ToString (get_prop ob p0) @ ''''
      | [p0, p1] \<Rightarrow> ToString (get_prop ob p0) @ '','' @ ToString (get_prop ob p1)
      | [p0, p1, p2] \<Rightarrow>
          ToString (get_prop ob p0) @ '','' @ ToString (get_prop ob p1) @ '','' @ ToString (get_prop ob p2)
      | _ \<Rightarrow> propKeyLoop ob props '''')"

text \<open>The object behind a value; a value that is no reference to an object has no properties.\<close>

definition objOf :: "heap \<Rightarrow> jsval \<Rightarrow> obj" where
  "objOf h v =
     (case v of
        JRef a \<Rightarrow> (if a < length h then (case h ! a of Obj ob \<Rightarrow> ob | Arr xs \<Rightarrow> []) else [])
      | _ \<Rightarrow> [])"

text \<open>
  The last loop of \<open>_createManyToManyRelationJoinRowBatch\<close>, for the models of one table
  insertion: the keys are the union of the keys of all models, and of the models with
  the same \<open>$propKey\<close> over these keys the first is kept.
\<close>

definition joinRowKeys :: "heap \<Rightarrow> jsval list \<Rightarrow> string list" where
  "joinRowKeys h models = uniq (concat (map (\<lambda>m. obj_keys (objOf h m)) models))"

definition removeDuplicates :: "heap \<Rightarrow> tableInsertion \<Rightarrow> tableInsertion" where
  "removeDuplicates h ti =
     (if ti_models ti \<noteq> []
      then (let keys = joinRowKeys h (ti_models ti);
                models = uniqBy (\<lambda>m. propKey (objOf h m) keys) (ti_models ti)
            in ti\<lparr>ti_models := models, isInputModel := replicate (length models) False\<rparr>)
      else ti)"

text \<open>
  \<open>Model.fromJson\<close> for the model class of a join table, a class with no schema and no
  relations: \<open>$set\<close> copies the properties whose name does not start with \<open>$\<close> and whose
  value is not a function.
\<close>

definition isFunction :: "jsval \<Rightarrow> bool" where
  "isFunction v = (case v of JFun src \<Rightarrow> True | _ \<Rightarrow> False)"

definition startsWithDollar :: "string \<Rightarrow> bool" where
  "startsWithDollar k = (case k of [] \<Rightarrow> False | c # _ \<Rightarrow> c = CHR ''$'')"

definition fromJson :: "obj \<Rightarrow> obj" where
  "fromJson json =
     foldl (\<lambda>model kv. if \<not> startsWithDollar (fst kv) \<and> \<not> isFunction (snd kv)
                         then set_prop model (fst kv) (snd kv) else model) [] json"

text \<open>The extras taken from the referring model: those that are not \<open>undefined\<close> there.\<close>

fun copyExtras :: "obj \<Rightarrow> joinTableExtra list \<Rightarrow> obj \<Rightarrow> obj" where
  "copyExtras refModel [] joinModel = joinModel"
| "copyExtras refModel (extra # extras) joinModel =
     copyExtras refModel extras
       (if get_prop refModel (aliasProp extra) \<noteq> JUndefined
        then set_prop joinModel (joinTableProp extra) (get_prop refModel (aliasProp extra))
        else joinModel)"

text \<open>
  The join row of one connection of a node, added to the batch. The table insertion is
  looked up under \<open>conn.relation.joinTable\<close> and stored under the table name of the model
  class of the join table. The new model is a new object of the store.
\<close>

definition addJoinRow :: "graph \<Rightarrow> node \<Rightarrow> connection \<Rightarrow> batch \<times> heap \<Rightarrow> batch \<times> heap" where
  "addJoinRow g nd conn bh =
     (let batch = fst bh; h = snd bh;
          rel = conn_relation conn;
          found = map_of batch (mm_joinTable rel);
          ownerValues = map (get_prop (objOf h (node_model nd))) (mm_ownerProp rel);
          modelClass = mm_joinTableModelClass rel;
          joinModel0 = mm_createJoinModel rel ownerValues (objOf h (node_model (nodes g ! conn_node conn)));
          joinModel1 = (case conn_refNode conn of
                          None \<Rightarrow> joinModel0
                        | Some r \<Rightarrow> copyExtras (objOf h (node_model (nodes g ! r)))
                                      (mm_joinTableExtras rel) joinModel0);
          (a, h1) = alloc h (Obj (fromJson joinModel1));
          tableInsertion = (case found of None \<Rightarrow> newTableInsertion modelClass True | Some ti \<Rightarrow> ti);
          key = (case found of None \<Rightarrow> tableName modelClass | Some ti \<Rightarrow> mm_joinTable rel)
      in (batchPut batch key
            (tableInsertion\<lparr>ti_models := ti_models tableInsertion @ [JRef a],
                             isInputModel := isInputModel tableInsertion @ [False]\<rparr>),
          h1))"

definition createManyToManyRelationJoinRowBatch :: "graph \<Rightarrow> heap \<Rightarrow> batch \<times> heap" where
  "createManyToManyRelationJoinRowBatch g h =
     (let (batch, h1) =
            foldl (\<lambda>bh nd. foldl (\<lambda>bh' conn. addJoinRow g nd conn bh') bh (manyToManyConnections nd))
              ([], h) (nodes g)
      in (map (\<lambda>kv. (fst kv, removeDuplicates h1 (snd kv))) batch, h1))"

text \<open>
  \<open>_nextBatch\<close>: \<open>None\<close> is \<open>null\<close>. After the first empty scan \<open>done\<close> is set and the batch
  of the join rows is returned, which may be an empty object.
\<close>

definition nextBatch :: "inserterState \<Rightarrow> error + batch option \<times> inserterState" where
  "nextBatch st =
     (if gi_done st then Inr (None, st)
      else (let batch = createBatch (gi_graph st)
            in if batch = []
               then (let (joinBatch, h1) =
                           createManyToManyRelationJoinRowBatch (gi_graph st) (gi_store st)
                     in Inr (Some joinBatch, st\<lparr>gi_done := True, gi_store := h1\<rparr>))
               else (case markBatchHandled (gi_store st) (gi_graph st) batch of
                       Inl e \<Rightarrow> Inl e
                     | Inr g1 \<Rightarrow> Inr (Some batch, st\<lparr>gi_graph := g1\<rparr>))))"

section \<open>GraphInserter: executing a batch\<close>

text \<open>
  \<open>omitArray\<close>, the body of \<open>$omit\<close> for a list of keys: a key is deleted when it does
  not start with \<open>$\<close> and the model has it.
\<close>

fun omitArray :: "obj \<Rightarrow> string list \<Rightarrow> obj" where
  "omitArray model [] = model"
| "omitArray model (key # keys) =
     omitArray (if \<not> startsWithDollar key \<and> has_prop model key then delete_prop model key else model)
       keys"

text \<open>\<open>model.$omit(keys)\<close> on a model of the store; what is no object has no such method.\<close>

definition omitProps :: "heap \<Rightarrow> jsval \<Rightarrow> string list \<Rightarrow> error + heap" where
  "omitProps h model keys =
     (case model of
        JRef a \<Rightarrow>
          (if a < length h
           then (case h ! a of
                   Obj ob \<Rightarrow> Inr (h[a := Obj (omitArray ob keys)])
                 | Arr xs \<Rightarrow> Inl TypeError)
           else Inl TypeError)
      | _ \<Rightarrow> Inl TypeError)"

text \<open>
  \<open>_omitUids\<close>: the uids of the models are read first (\<open>_.map\<close> with a property name
  gives \<open>undefined\<close> for what has no such property), then the uid is omitted from every
  model.
\<close>

fun omitUidsLoop :: "heap \<Rightarrow> jsval list \<Rightarrow> error + heap" where
  "omitUidsLoop h [] = Inr h"
| "omitUidsLoop h (m # ms) =
     (case omitProps h m [uidProp] of
        Inl e \<Rightarrow> Inl e
      | Inr h1 \<Rightarrow> omitUidsLoop h1 ms)"

definition omitUids :: "heap \<Rightarrow> tableInsertion \<Rightarrow> error + jsval list \<times> heap" where
  "omitUids h ti =
     (let ids = map (\<lambda>m. get_prop (objOf h m) uidProp) (ti_models ti)
      in (case omitUidsLoop h (ti_models ti) of
            Inl e \<Rightarrow> Inl e
          | Inr h1 \<Rightarrow> Inr (ids, h1)))"

text \<open>
  \<open>_resolveDepsForInsertion\<close>: for the model at every position the node is found by the
  uid kept for that position, and every dependency of its \<open>isNeededBy\<close> is resolved with
  the model. A uid with no node raises a \<open>TypeError\<close>; a resolver that throws rejects
  the insertion.
\<close>

fun resolveAll :: "dependency list \<Rightarrow> jsval \<Rightarrow> heap \<Rightarrow> error + heap" where
  "resolveAll [] model h = Inr h"
| "resolveAll (dep # deps) model h =
     (case dep_resolve dep model h of
        None \<Rightarrow> Inl Rejected
      | Some h1 \<Rightarrow> resolveAll deps model h1)"

fun resolveDepsLoop :: "graph \<Rightarrow> jsval list \<Rightarrow> jsval list \<Rightarrow> heap \<Rightarrow> error + heap" where
  "resolveDepsLoop g [] uids h = Inr h"
| "resolveDepsLoop g (model # models) uids h =
     (case nodesById g (ToString (case uids of [] \<Rightarrow> JUndefined | u # _ \<Rightarrow> u)) of
        None \<Rightarrow> Inl TypeError
      | Some n \<Rightarrow>
          (case resolveAll (isNeededBy (nodes g ! n)) model h of
             Inl e \<Rightarrow> Inl e
           | Inr h1 \<Rightarrow> resolveDepsLoop g models (tl uids) h1))"

definition resolveDepsForInsertion :: "graph \<Rightarrow> tableInsertion \<Rightarrow> jsval list \<Rightarrow> heap \<Rightarrow> error + heap" where
  "resolveDepsForInsertion g ti uids h = resolveDepsLoop g (ti_models ti) uids h"

text \<open>
  The insert callback. It is called with a table insertion and sees the store of that
  moment; it returns a promise, which is modelled by its effect at the time it settles:
  a function of the store and of the state \<open>'s\<close> of the database, \<open>None\<close> for a
  rejected promise.
\<close>

type_synonym 's pending = "heap \<times> 's \<Rightarrow> (heap \<times> 's) option"

type_synonym 's insertCallback = "tableInsertion \<Rightarrow> heap \<Rightarrow> 's pending"

text \<open>
  The function mapped over the keys of the batch, up to the call of the callback: the
  uids are omitted unless the insertion is one of a join table, and the callback is
  called. The result keeps the table insertion, the uids and the promise.
\<close>

record 's started =
  st_insertion :: tableInsertion
  st_uids :: "jsval list"
  st_promise :: "'s pending"

definition startInsertion ::
  "'s insertCallback \<Rightarrow> tableInsertion \<Rightarrow> heap \<Rightarrow> error + 's started \<times> heap" where
  "startInsertion inserter ti h =
     (if \<not> isJoinTableInsertion ti
      then (case omitUids h ti of
              Inl e \<Rightarrow> Inl e
            | Inr (uids, h1) \<Rightarrow>
                Inr (\<lparr>st_insertion = ti, st_uids = uids, st_promise = inserter ti h1\<rparr>, h1))
      else Inr (\<lparr>st_insertion = ti, st_uids = [], st_promise = inserter ti h\<rparr>, h))"

fun startInsertions ::
  "'s insertCallback \<Rightarrow> batch \<Rightarrow> heap \<Rightarrow> error + 's started list \<times> heap" where
  "startInsertions inserter [] h = Inr ([], h)"
| "startInsertions inserter (kv # batch) h =
     (case startInsertion inserter (snd kv) h of
        Inl e \<Rightarrow> Inl e
      | Inr (s, h1) \<Rightarrow>
          (case startInsertions inserter batch h1 of
             Inl e \<Rightarrow> Inl e
           | Inr (ss, h2) \<Rightarrow> Inr (s # ss, h2)))"

text \<open>
  The promises settle, here in the order of the keys, each followed by its \<open>then\<close>
  callback, which resolves the dependencies unless the insertion is one of a join
  table. A rejected promise rejects \<open>Promise.all\<close>.
\<close>

fun settleInsertions ::
  "graph \<Rightarrow> 's started list \<Rightarrow> heap \<times> 's \<Rightarrow> error + heap \<times> 's" where
  "settleInsertions g [] hs = Inr hs"
| "settleInsertions g (s # ss) hs =
     (case st_promise s hs of
        None \<Rightarrow> Inl Rejected
      | Some (h1, db1) \<Rightarrow>
          (if \<not> isJoinTableInsertion (st_insertion s)
           then (case resolveDepsForInsertion g (st_insertion s) (st_uids s) h1 of
                   Inl e \<Rightarrow> Inl e
                 | Inr h2 \<Rightarrow> settleInsertions g ss (h2, db1))
           else settleInsertions g ss (h1, db1)))"

section \<open>GraphInserter: finalization and execute\<close>

text \<open>
  The body of the loop of \<open>_finalize\<close> for one node. With a truthy \<open>#ref\<close> in its model
  the referenced node is found by that value (a \<open>TypeError\<close> when there is none), the
  keys of its model are listed, and every property that is no declared relation of the
  referenced node's class and no function is written to the model of the reference;
  then uid and ref are omitted from it.
\<close>

fun copyProps :: "heap \<Rightarrow> string list \<Rightarrow> jsval \<Rightarrow> jsval \<Rightarrow> string list \<Rightarrow> error + heap" where
  "copyProps h relations actualModel refModel [] = Inr h"
| "copyProps h relations actualModel refModel (key # keys) =
     (case readProp h actualModel key of
        Inl e \<Rightarrow> Inl e
      | Inr v \<Rightarrow>
          (if key \<notin> set relations \<and> \<not> isFunction v
           then (case writeProp h refModel key v of
                   Inl e \<Rightarrow> Inl e
                 | Inr h1 \<Rightarrow> copyProps h1 relations actualModel refModel keys)
           else copyProps h relations actualModel refModel keys))"

definition finalizeNode :: "graph \<Rightarrow> node \<Rightarrow> heap \<Rightarrow> error + heap" where
  "finalizeNode g refNode h =
     (case readProp h (node_model refNode) uidRefProp of
        Inl e \<Rightarrow> Inl e
      | Inr ref \<Rightarrow>
          (if truthy ref
           then (case nodesById g (ToString ref) of
                   None \<Rightarrow> Inl TypeError
                 | Some a \<Rightarrow>
                     (let actualNode = nodes g ! a;
                          relations = relationNames (node_modelClass actualNode);
                          keys = obj_keys (objOf h (node_model actualNode))
                      in (case copyProps h relations (node_model actualNode) (node_model refNode) keys of
                            Inl e \<Rightarrow> Inl e
                          | Inr h1 \<Rightarrow> omitProps h1 (node_model refNode) [uidProp, uidRefProp])))
           else Inr h))"

fun finalizeNodes :: "graph \<Rightarrow> node list \<Rightarrow> heap \<Rightarrow> error + heap" where
  "finalizeNodes g [] h = Inr h"
| "finalizeNodes g (nd # nds) h =
     (case finalizeNode g nd h of
        Inl e \<Rightarrow> Inl e
      | Inr h1 \<Rightarrow> finalizeNodes g nds h1)"

definition finalizeGraph :: "graph \<Rightarrow> heap \<Rightarrow> error + heap" where
  "finalizeGraph g h = finalizeNodes g (nodes g) h"

text \<open>
  \<open>execute\<close>, that is \<open>_executeNextBatch\<close>. Each round asks for the next batch; with none
  left the graph is finalized and the promise resolves with \<open>this.models\<close>. Otherwise the
  batch is inserted and the next round follows when all its promises have settled. The
  rounds are counted by \<open>fuel\<close>: \<open>None\<close> means that the rounds given were not enough.
  Next to the outcome the function gives the batches in the order in which they were
  handed to the callback, a record of the run that the JavaScript does not build, kept
  to state in which order the insertions happen. \<open>models\<close> is \<open>this.models\<close>.
\<close>

fun executeNextBatch ::
  "nat \<Rightarrow> 's insertCallback \<Rightarrow> jsval \<Rightarrow> inserterState \<Rightarrow> 's \<Rightarrow>
   (batch list \<times> (error + jsval \<times> heap \<times> 's)) option" where
  "executeNextBatch 0 inserter models st db = None"
| "executeNextBatch (Suc fuel) inserter models st db =
     (case nextBatch st of
        Inl e \<Rightarrow> Some ([], Inl e)
      | Inr (None, st1) \<Rightarrow>
          (case finalizeGraph (gi_graph st1) (gi_store st1) of
             Inl e \<Rightarrow> Some ([], Inl e)
           | Inr h \<Rightarrow> Some ([], Inr (models, h, db)))
      | Inr (Some batch, st1) \<Rightarrow>
          (case startInsertions inserter batch (gi_store st1) of
             Inl e \<Rightarrow> Some ([batch], Inl e)
           | Inr (started, h1) \<Rightarrow>
               (case settleInsertions (gi_graph st1) started (h1, db) of
                  Inl e \<Rightarrow> Some ([batch], Inl e)
                | Inr (h2, db2) \<Rightarrow>
                    (case executeNextBatch fuel inserter models (st1\<lparr>gi_store := h2\<rparr>) db2 of
                       None \<Rightarrow> None
                     | Some (trace, outcome) \<Rightarrow> Some (batch # trace, outcome)))))"

definition execute ::
  "nat \<Rightarrow> 's insertCallback \<Rightarrow> jsval \<Rightarrow> graph \<Rightarrow> heap \<Rightarrow> 's \<Rightarrow>
   (batch list \<times> (error + jsval \<times> heap \<times> 's)) option" where
  "execute fuel inserter models g h db =
     executeNextBatch fuel inserter models \<lparr>gi_graph = g, gi_done = False, gi_store = h\<rparr> db"

chapter \<open>Verified properties\<close>

section \<open>Decimal rendering is injective\<close>

definition digit_val :: "char \<Rightarrow> nat" where
  "digit_val c = length (takeWhile (\<lambda>d. d \<noteq> c) ''0123456789'')"

definition read_nat :: "string \<Rightarrow> nat" where
  "read_nat s = foldl (\<lambda>a c. 10 * a + digit_val c) 0 s"

lemma digit_val_digit: "d < 10 \<Longrightarrow> digit_val (digit d) = d"
proof -
  assume "d < 10"
  then have "d \<in> {0, 1, 2, 3, 4, 5, 6, 7, 8, 9}" by auto
  then show ?thesis
    by (auto simp: digit_def digit_val_def)
qed

lemma read_nat_snoc: "read_nat (s @ [c]) = 10 * read_nat s + digit_val c"
  by (simp add: read_nat_def)

lemma read_show_nat: "read_nat (show_nat n) = n"
proof (induction n rule: show_nat.induct)
  case (1 n)
  show ?case
  proof (cases "n < 10")
    case True
    then show ?thesis
      by (subst show_nat.simps) (simp add: read_nat_def digit_val_digit)
  next
    case False
    then have "read_nat (show_nat (n div 10)) = n div 10" using 1 by simp
    then show ?thesis using False
      by (subst show_nat.simps) (simp add: read_nat_snoc digit_val_digit)
  qed
qed

lemma show_nat_inj: "show_nat m = show_nat n \<Longrightarrow> m = n"
  by (metis read_show_nat)

section \<open>Path aliases: encode and decode\<close>

lemma opt_encode: "opt (snd (encode b p)) = opt b"
  by (auto simp: encode_def storeEncoding_def nextEncodedPath_def Let_def split: option.splits)

lemma encodeDefault_opt: "opt b' = opt b \<Longrightarrow> encodeDefault b' q = encodeDefault b q"
  by (simp add: encodeDefault_def aliasPart_def sep_def cong: map_cong)

lemma opt_encodeAll: "opt (encodeAll b ps) = opt b"
  by (induction ps arbitrary: b) (simp_all add: opt_encode)

lemma encodeDefault_upd [simp]:
  "encodeDefault (b\<lparr>encodings := x\<rparr>) q = encodeDefault b q"
  "encodeDefault (b\<lparr>decodings := y\<rparr>) q = encodeDefault b q"
  "encodeDefault (b\<lparr>encIdx := n\<rparr>) q = encodeDefault b q"
  by (rule encodeDefault_opt, simp)+

definition inv_default :: "string set \<Rightarrow> rjb \<Rightarrow> bool" where
  "inv_default T b \<longleftrightarrow>
     (\<forall>e q. decodings b e = Some q \<longrightarrow> encodeDefault b q = e \<and> q \<in> T) \<and>
     (\<forall>q e. encodings b q = Some e \<longrightarrow> e = encodeDefault b q \<and> decodings b e \<noteq> None)"

lemma inv_default_encode:
  assumes "\<not> minimize (opt b)" "inv_default T b" "p \<in> T"
  shows "inv_default T (snd (encode b p))"
proof (cases "cachedEncoding b p")
  case None
  show ?thesis using assms None
    unfolding inv_default_def encode_def
    by (auto simp: storeEncoding_def Let_def)
next
  case (Some e)
  then show ?thesis using assms by (simp add: encode_def)
qed

lemma inv_default_encodeAll:
  "\<not> minimize (opt b) \<Longrightarrow> inv_default T b \<Longrightarrow> set ps \<subseteq> T \<Longrightarrow> inv_default T (encodeAll b ps)"
  by (induction ps arbitrary: b) (simp_all add: inv_default_encode opt_encode)

lemma decode_encode_default:
  assumes "\<not> minimize (opt b)" "inv_default T b" "inj_on (encodeDefault b) T" "p \<in> T"
  shows "decode_encode b p = Some p"
proof (cases "cachedEncoding b p")
  case None
  then show ?thesis using assms
    by (simp add: decode_encode_def encode_def decode_def storeEncoding_def Let_def)
next
  case (Some e)
  then have enc: "encodings b p = Some e"
    by (auto simp: cachedEncoding_def split: option.splits if_splits)
  with assms(2) have e: "e = encodeDefault b p" and "decodings b e \<noteq> None"
    by (auto simp: inv_default_def)
  then obtain q where q: "decodings b e = Some q" by auto
  with assms(2) have "encodeDefault b q = e" "q \<in> T" by (auto simp: inv_default_def)
  with e assms(3,4) have "q = p" by (auto dest: inj_onD)
  with q Some assms(1) show ?thesis
    by (simp add: decode_encode_def encode_def decode_def)
qed

definition tok :: "nat \<Rightarrow> string" where
  "tok n = ''_t'' @ show_nat n"

lemma tok_inj: "tok m = tok n \<Longrightarrow> m = n"
  by (simp add: tok_def show_nat_inj)

definition inv_min :: "rjb \<Rightarrow> bool" where
  "inv_min b \<longleftrightarrow>
     (\<forall>e q. decodings b e = Some q \<longrightarrow>
        (q = [] \<and> e = []) \<or>
        (q \<noteq> [] \<and> (\<exists>n. 1 \<le> n \<and> n \<le> encIdx b \<and> e = tok n) \<and> encodings b q = Some e)) \<and>
     (\<forall>q e. encodings b q = Some e \<longrightarrow> decodings b e = Some q)"

lemma tok_nonempty: "tok n \<noteq> []"
  by (simp add: tok_def)

lemma inv_min_nonroot:
  assumes "inv_min b" "encodings b q = Some e" "q \<noteq> []"
  shows "\<exists>n. 1 \<le> n \<and> n \<le> encIdx b \<and> e = tok n"
proof -
  from assms have "decodings b e = Some q" by (simp add: inv_min_def)
  with assms show ?thesis unfolding inv_min_def by blast
qed

lemma inv_min_storeI:
  assumes "inv_min b" "encIdx b \<le> k"
    and "cachedEncoding b p = None"
    and "(p = [] \<and> e = []) \<or> (p \<noteq> [] \<and> e = tok k \<and> 1 \<le> k \<and> decodings b e = None)"
  shows "inv_min (storeEncoding (b\<lparr>encIdx := k\<rparr>) p e)"
proof -
  have dec: "\<And>e q. decodings b e = Some q \<Longrightarrow>
      (q = [] \<and> e = []) \<or>
      (q \<noteq> [] \<and> (\<exists>n. 1 \<le> n \<and> n \<le> encIdx b \<and> e = tok n) \<and> encodings b q = Some e)"
    using assms(1) unfolding inv_min_def by blast
  have enc: "\<And>q e. encodings b q = Some e \<Longrightarrow> decodings b e = Some q"
    using assms(1) unfolding inv_min_def by blast
  have nonroot: "\<And>q e. encodings b q = Some e \<Longrightarrow> q \<noteq> [] \<Longrightarrow> e \<noteq> []"
  proof -
    fix q e assume "encodings b q = Some e" "q \<noteq> []"
    from inv_min_nonroot[OF assms(1) this] obtain n where "e = tok n" by blast
    then show "e \<noteq> []" by (simp add: tok_nonempty)
  qed
  have notcached: "p \<noteq> [] \<Longrightarrow> encodings b p = None"
  proof (rule ccontr)
    assume "p \<noteq> []" "encodings b p \<noteq> None"
    then obtain e' where e': "encodings b p = Some e'" by auto
    from nonroot[OF e' \<open>p \<noteq> []\<close>] have "e' \<noteq> []" .
    with e' assms(3) show False by (simp add: cachedEncoding_def)
  qed
  let ?b = "storeEncoding (b\<lparr>encIdx := k\<rparr>) p e"
  have D: "\<And>e' q. decodings ?b e' = Some q \<longleftrightarrow> (e' = e \<and> q = p) \<or> (e' \<noteq> e \<and> decodings b e' = Some q)"
    by (auto simp: storeEncoding_def)
  have E: "\<And>q e'. encodings ?b q = Some e' \<longleftrightarrow> (q = p \<and> e' = e) \<or> (q \<noteq> p \<and> encodings b q = Some e')"
    by (auto simp: storeEncoding_def)
  have K: "encIdx ?b = k" by (simp add: storeEncoding_def)
  show ?thesis unfolding inv_min_def D E K
  proof (intro conjI allI impI)
    fix e' q
    assume "(e' = e \<and> q = p) \<or> (e' \<noteq> e \<and> decodings b e' = Some q)"
    then show "(q = [] \<and> e' = []) \<or>
        (q \<noteq> [] \<and> (\<exists>n. 1 \<le> n \<and> n \<le> k \<and> e' = tok n) \<and>
         ((q = p \<and> e' = e) \<or> (q \<noteq> p \<and> encodings b q = Some e')))"
    proof
      assume "e' = e \<and> q = p"
      with assms(4) show ?thesis by auto
    next
      assume h: "e' \<noteq> e \<and> decodings b e' = Some q"
      from dec[of e' q] h have
        "(q = [] \<and> e' = []) \<or>
         (q \<noteq> [] \<and> (\<exists>n. 1 \<le> n \<and> n \<le> encIdx b \<and> e' = tok n) \<and> encodings b q = Some e')"
        by simp
      then show ?thesis
      proof
        assume "q = [] \<and> e' = []" then show ?thesis by simp
      next
        assume g: "q \<noteq> [] \<and> (\<exists>n. 1 \<le> n \<and> n \<le> encIdx b \<and> e' = tok n) \<and> encodings b q = Some e'"
        have "q \<noteq> p"
        proof
          assume "q = p"
          with g notcached show False by auto
        qed
        with g assms(2) show ?thesis by auto
      qed
    qed
  next
    fix q e'
    assume "(q = p \<and> e' = e) \<or> (q \<noteq> p \<and> encodings b q = Some e')"
    then show "(e' = e \<and> q = p) \<or> (e' \<noteq> e \<and> decodings b e' = Some q)"
    proof
      assume "q = p \<and> e' = e" then show ?thesis by simp
    next
      assume h: "q \<noteq> p \<and> encodings b q = Some e'"
      then have d: "decodings b e' = Some q" by (simp add: enc)
      have "e' \<noteq> e"
      proof
        assume eq: "e' = e"
        from assms(4) show False
        proof
          assume r: "p = [] \<and> e = []"
          with h have "q \<noteq> []" by simp
          with h have "e' \<noteq> []" by (auto dest: nonroot)
          with eq r show False by simp
        next
          assume "p \<noteq> [] \<and> e = tok k \<and> 1 \<le> k \<and> decodings b e = None"
          then have "decodings b e = None" by blast
          with d eq show False by simp
        qed
      qed
      with d show ?thesis by simp
    qed
  qed
qed

lemma inv_min_fresh:
  assumes "inv_min b"
  shows "decodings b (tok (Suc (encIdx b))) = None"
proof (rule ccontr)
  assume "decodings b (tok (Suc (encIdx b))) \<noteq> None"
  then obtain q where q: "decodings b (tok (Suc (encIdx b))) = Some q" by auto
  with assms obtain n where "n \<le> encIdx b" "tok (Suc (encIdx b)) = tok n"
    unfolding inv_min_def by (metis tok_nonempty)
  then show False by (auto dest: tok_inj)
qed

lemma inv_min_encode:
  assumes "minimize (opt b)" "inv_min b"
  shows "inv_min (snd (encode b p))"
proof (cases "cachedEncoding b p")
  case (Some e)
  then show ?thesis using assms by (simp add: encode_def)
next
  case None
  show ?thesis
  proof (cases "p = []")
    case True
    have res: "snd (encode b p) = storeEncoding (b\<lparr>encIdx := encIdx b\<rparr>) p []"
      using assms None True by (simp add: encode_def)
    show ?thesis unfolding res
      by (rule inv_min_storeI[OF assms(2) _ None]) (simp_all add: True)
  next
    case False
    have res: "snd (encode b p) = storeEncoding (b\<lparr>encIdx := Suc (encIdx b)\<rparr>) p (tok (Suc (encIdx b)))"
      using assms None False by (simp add: encode_def nextEncodedPath_def tok_def Let_def)
    show ?thesis unfolding res
      by (rule inv_min_storeI[OF assms(2) _ None]) (simp_all add: False inv_min_fresh[OF assms(2)])
  qed
qed

lemma inv_min_encodeAll: "minimize (opt b) \<Longrightarrow> inv_min b \<Longrightarrow> inv_min (encodeAll b ps)"
  by (induction ps arbitrary: b) (simp_all add: inv_min_encode opt_encode)

lemma decode_encode_min:
  assumes "minimize (opt b)" "inv_min b"
  shows "decode_encode b p = Some p"
proof (cases "cachedEncoding b p")
  case (Some e)
  then have "encodings b p = Some e"
    by (auto simp: cachedEncoding_def split: option.splits if_splits)
  with assms(2) have "decodings b e = Some p" by (simp add: inv_min_def)
  with Some assms(1) show ?thesis
    by (simp add: decode_encode_def encode_def decode_def)
next
  case None
  then show ?thesis using assms(1)
    by (simp add: decode_encode_def encode_def decode_def storeEncoding_def nextEncodedPath_def
        Let_def split: prod.splits)
qed

lemma inv_min_new: "inv_min (new_rjb op)"
  by (simp add: inv_min_def new_rjb_def)

lemma inv_default_new: "inv_default T (new_rjb op)"
  by (simp add: inv_default_def new_rjb_def)

text \<open>
  Claim C5, as the code has it. A build calls \<open>encode\<close> on a fresh builder for a
  sequence of paths \<open>ps\<close>. For every path \<open>p\<close> of the sequence, a following
  \<open>decode(encode(p))\<close> returns \<open>p\<close>, in the minimize mode always, and in the default mode
  when no two paths of the build have the same alias under the override table (the
  default encoding is injective on the paths of the build).
\<close>

theorem encode_decode_inverse:
  assumes "p \<in> set ps"
    and "minimize op \<or> inj_on (encodeDefault (new_rjb op)) (set ps)"
  shows "decode_encode (encodeAll (new_rjb op) ps) p = Some p"
proof (cases "minimize op")
  case True
  then have m0: "minimize (opt (new_rjb op))" by (simp add: new_rjb_def)
  then have m: "minimize (opt (encodeAll (new_rjb op) ps))"
    by (simp add: opt_encodeAll)
  have "inv_min (encodeAll (new_rjb op) ps)"
    by (rule inv_min_encodeAll[OF m0 inv_min_new])
  with m show ?thesis by (rule decode_encode_min)
next
  case False
  let ?b = "encodeAll (new_rjb op) ps"
  have m: "\<not> minimize (opt ?b)" using False by (simp add: opt_encodeAll new_rjb_def)
  have m0: "\<not> minimize (opt (new_rjb op))" using False by (simp add: new_rjb_def)
  have i: "inv_default (set ps) ?b"
    by (rule inv_default_encodeAll[OF m0 inv_default_new]) simp
  have "encodeDefault ?b = encodeDefault (new_rjb op)"
    by (rule ext, rule encodeDefault_opt) (simp add: opt_encodeAll)
  with assms(2) False have "inj_on (encodeDefault ?b) (set ps)" by simp
  from decode_encode_default[OF m i this assms(1)] show ?thesis .
qed

text \<open>
  A default-mode build with an override for one segment: the root, \<open>a\<close> and
  \<open>a:b\<close> have three different aliases.
\<close>

definition overrideOpt :: rjb_opt where
  "overrideOpt = \<lparr>minimize = False, separator = '':'', aliases = [''a'' \<mapsto> ''x'']\<rparr>"

theorem encode_decode_inverse_witness:
  "''a:b'' \<in> set ['''', ''a'', ''a:b''] \<and>
   inj_on (encodeDefault (new_rjb overrideOpt)) (set ['''', ''a'', ''a:b'']) \<and>
   decode_encode (encodeAll (new_rjb overrideOpt) ['''', ''a'', ''a:b'']) ''a:b'' = Some ''a:b''"
proof -
  have m: "''a:b'' \<in> set ['''', ''a'', ''a:b'']" by simp
  have i: "inj_on (encodeDefault (new_rjb overrideOpt)) (set ['''', ''a'', ''a:b''])"
    by (simp add: encodeDefault_def new_rjb_def overrideOpt_def aliasPart_def sep_def js_split_def)
  from encode_decode_inverse[OF m disjI2[OF i]] m i show ?thesis by blast
qed

text \<open>
  Claim C5 as stated fails for an override table that sends two paths of one build to
  the same alias. With \<open>aliases = {a: 'b'}\<close> and the relations \<open>a\<close> and \<open>b\<close> of the root
  in the expression, \<open>doBuild\<close> encodes the root, then \<open>a\<close> (twice: in \<open>forEachExpr\<close> and
  in \<open>createPathInfo\<close>), then \<open>b\<close> (twice). Both relations get the alias \<open>b\<close>, the second
  write to \<open>decodings\<close> replaces the first, and \<open>decode(encode('a'))\<close> is \<open>'b'\<close>.
\<close>

definition aliasOpt :: rjb_opt where
  "aliasOpt = \<lparr>minimize = False, separator = '':'', aliases = [''a'' \<mapsto> ''b'']\<rparr>"

theorem encode_decode_alias_collision:
  "''a'' \<in> set ['''', ''a'', ''a'', ''b'', ''b''] \<and>
   decode_encode (encodeAll (new_rjb aliasOpt) ['''', ''a'', ''a'', ''b'', ''b'']) ''a'' = Some ''b''"
  by (simp add: decode_encode_def encode_def decode_def new_rjb_def aliasOpt_def cachedEncoding_def
      storeEncoding_def encodeDefault_def aliasPart_def sep_def js_split_def Let_def)

section \<open>The select list: the limit on the length of an alias\<close>

text \<open>
  Claim C4. Let \<open>selects\<close> be the select list that \<open>buildSelects\<close> computes for a path.
  If some alias of the list is longer than 63 characters, \<open>buildSelects\<close> raises a
  \<open>ValidationError\<close> and the query builder holds the same select expressions as before
  the call, so nothing was added to it. If every alias has at most 63 characters, no
  error is raised and the selects that the builder does not hold yet are added.
\<close>

theorem buildSelects_alias_limit:
  assumes "computeSelects b columnInfo rootTable selectFilter mc rel info = Some (selects, omitCols, b')"
  shows "((\<exists>s \<in> set selects. length (sel_alias s) > 63) \<longrightarrow>
            (\<exists>msg. fst (buildSelects columnInfo rootTable hasSelection selectFilter mc rel info b selected)
                     = Some (ValidationError msg)) \<and>
            ss_selected (snd (buildSelects columnInfo rootTable hasSelection selectFilter mc rel info b selected))
              = selected) \<and>
         ((\<forall>s \<in> set selects. length (sel_alias s) \<le> 63) \<longrightarrow>
            fst (buildSelects columnInfo rootTable hasSelection selectFilter mc rel info b selected) = None \<and>
            ss_selected (snd (buildSelects columnInfo rootTable hasSelection selectFilter mc rel info b selected))
              = selected @ map (\<lambda>s. sel_col s @ '' as '' @ sel_alias s)
                         (filter (\<lambda>s. \<not> hasSelection selected (sel_col s)) selects))"
proof -
  have "(filter (\<lambda>s. length (sel_alias s) > idLengthLimit) selects \<noteq> []) =
        (\<exists>s \<in> set selects. length (sel_alias s) > 63)"
    by (auto simp: filter_empty_conv idLengthLimit_def)
  then show ?thesis using assms
    by (auto simp: buildSelects_def Let_def idLengthLimit_def filter_empty_conv not_less)
qed

text \<open>
  The scenario of the specification: a root table with the identifier column \<open>id\<close> and
  a column whose name, and so whose alias at the root, has 70 characters. The same
  table with a short column passes.
\<close>

definition longCol :: string where
  "longCol = replicate 70 CHR ''x''"

text \<open>
  The classes of the scenarios have no JSON attributes, so that \<open>JSON.parse\<close> is never
  called; the scenarios pass a parser that accepts no text.
\<close>

definition neverParsed :: jsonParse where
  "neverParsed s a = None"

definition personClass :: modelClass where
  "personClass = \<lparr>tableName = ''Person'', idColumns = [''id''], relationNames = [''children''],
     jsonAttributes = []\<rparr>"

definition rootInfo0 :: pathInfo where
  "rootInfo0 = PathInfo False '''' '''' None personClass None [] (createSingleIdGetter [''id'']) []"

definition defaultOpt :: rjb_opt where
  "defaultOpt = \<lparr>minimize = False, separator = '':'', aliases = Map.empty\<rparr>"

lemma computeSelects_longCol:
  "computeSelects (new_rjb defaultOpt) [''Person'' \<mapsto> [''id'', longCol]] ''Person'' (\<lambda>c. True)
     personClass None rootInfo0
   = Some ([\<lparr>sel_col = ''Person.id'', sel_alias = ''id''\<rparr>,
            \<lparr>sel_col = ''Person.'' @ longCol, sel_alias = longCol\<rparr>], [], new_rjb defaultOpt)"
  by (simp add: computeSelects_def personClass_def rootInfo0_def joinPath_def)

lemma computeSelects_shortCol:
  "computeSelects (new_rjb defaultOpt) [''Person'' \<mapsto> [''id'', ''name'']] ''Person'' (\<lambda>c. True)
     personClass None rootInfo0
   = Some ([\<lparr>sel_col = ''Person.id'', sel_alias = ''id''\<rparr>,
            \<lparr>sel_col = ''Person.name'', sel_alias = ''name''\<rparr>], [], new_rjb defaultOpt)"
  by (simp add: computeSelects_def personClass_def rootInfo0_def joinPath_def)

theorem buildSelects_alias_limit_witness:
  "length longCol = 70 \<and>
   (\<exists>msg. fst (buildSelects [''Person'' \<mapsto> [''id'', longCol]] ''Person'' (\<lambda>sel c. False) (\<lambda>c. True)
                  personClass None rootInfo0 (new_rjb defaultOpt) []) = Some (ValidationError msg)) \<and>
   ss_selected (snd (buildSelects [''Person'' \<mapsto> [''id'', longCol]] ''Person'' (\<lambda>sel c. False) (\<lambda>c. True)
                  personClass None rootInfo0 (new_rjb defaultOpt) [])) = [] \<and>
   fst (buildSelects [''Person'' \<mapsto> [''id'', ''name'']] ''Person'' (\<lambda>sel c. False) (\<lambda>c. True)
                  personClass None rootInfo0 (new_rjb defaultOpt) []) = None \<and>
   ss_selected (snd (buildSelects [''Person'' \<mapsto> [''id'', ''name'']] ''Person'' (\<lambda>sel c. False) (\<lambda>c. True)
                  personClass None rootInfo0 (new_rjb defaultOpt) []))
     = [''Person.id as id'', ''Person.name as name'']"
proof -
  have l: "length longCol = 70" by (simp add: longCol_def)
  have long: "\<exists>s \<in> set [\<lparr>sel_col = ''Person.id'', sel_alias = ''id''\<rparr>,
            \<lparr>sel_col = ''Person.'' @ longCol, sel_alias = longCol\<rparr>]. length (sel_alias s) > 63"
    by (simp add: l)
  have short: "\<forall>s \<in> set [\<lparr>sel_col = ''Person.id'', sel_alias = ''id''\<rparr>,
            \<lparr>sel_col = ''Person.name'', sel_alias = ''name''\<rparr>]. length (sel_alias s) \<le> 63"
    by simp
  from buildSelects_alias_limit[OF computeSelects_longCol, of "\<lambda>sel c. False" "[]"] long
  have a: "(\<exists>msg. fst (buildSelects [''Person'' \<mapsto> [''id'', longCol]] ''Person'' (\<lambda>sel c. False) (\<lambda>c. True)
                  personClass None rootInfo0 (new_rjb defaultOpt) []) = Some (ValidationError msg)) \<and>
     ss_selected (snd (buildSelects [''Person'' \<mapsto> [''id'', longCol]] ''Person'' (\<lambda>sel c. False) (\<lambda>c. True)
                  personClass None rootInfo0 (new_rjb defaultOpt) [])) = []"
    by blast
  from buildSelects_alias_limit[OF computeSelects_shortCol, of "\<lambda>sel c. False" "[]"] short
  have b: "fst (buildSelects [''Person'' \<mapsto> [''id'', ''name'']] ''Person'' (\<lambda>sel c. False) (\<lambda>c. True)
                  personClass None rootInfo0 (new_rjb defaultOpt) []) = None \<and>
     ss_selected (snd (buildSelects [''Person'' \<mapsto> [''id'', ''name'']] ''Person'' (\<lambda>sel c. False) (\<lambda>c. True)
                  personClass None rootInfo0 (new_rjb defaultOpt) []))
     = [''Person.id as id'', ''Person.name as name'']"
    by simp
  from l a b show ?thesis by blast
qed

section \<open>Rows to tree: objects and the store\<close>

lemma map_of_set_prop: "map_of (set_prop ob k v) = (map_of ob)(k \<mapsto> v)"
  by (induction ob) (auto simp: fun_eq_iff)

lemma get_set_prop: "get_prop (set_prop ob k v) k' = (if k' = k then v else get_prop ob k')"
  by (simp add: get_prop_def map_of_set_prop)


section \<open>Rows to tree: falsy identifiers\<close>





section \<open>Rows to tree: absent paths\<close>





section \<open>Rows to tree: one object for one identifier\<close>

definition branchKey :: "pathInfo \<Rightarrow> jsval \<Rightarrow> string option" where
  "branchKey pInfo ident =
     (if pi_oneToOne pInfo
      then (case pi_relation pInfo of None \<Rightarrow> None | Some r \<Rightarrow> Some (rel_name r))
      else Some (ToString ident))"

definition childrenRel :: relation where
  "childrenRel = \<lparr>rel_name = ''children'', rel_isOneToOne = False, rel_joinTable = None,
                  rel_joinTableExtras = None\<rparr>"

definition childrenBuilder :: rjb where
  "childrenBuilder = encodeAll (new_rjb defaultOpt) ['''', ''children'', ''children'']"

definition childInfo :: pathInfo where
  "childInfo = PathInfo False ''children'' ''children'' (Some '''') personClass (Some childrenRel) []
      (createIdGetter childrenBuilder personClass ''children'') []"

definition rootInfo :: pathInfo where
  "rootInfo = PathInfo False '''' '''' None personClass None []
      (createIdGetter childrenBuilder personClass '''') [(''children'', childInfo)]"

definition childrenInfos :: "(string \<times> pathInfo) list" where
  "childrenInfos = [('''', rootInfo), (''children'', childInfo)]"

definition rows3 :: "obj list" where
  "rows3 =
     [[(''id'', JNum 1), (''name'', JStr ''a''), (''children:id'', JNum 5), (''children:name'', JStr ''b'')],
      [(''id'', JNum 1), (''name'', JStr ''a''), (''children:id'', JNum 5), (''children:name'', JStr ''later'')],
      [(''id'', JNum 1), (''name'', JStr ''a''), (''children:id'', JNum 6), (''children:name'', JStr ''c'')]]"

definition heapAfterRow1 :: heap where
  "heapAfterRow1 =
     [Obj [(''id:1'', JRef 1)],
      Obj [(''id'', JNum 1), (''name'', JStr ''a''), (''children'', JRef 2)],
      Obj [(''id:5'', JRef 3)],
      Obj [(''id'', JNum 5), (''name'', JStr ''b'')]]"

lemma rows3_result:
  "rowsToTree neverParsed childrenBuilder childrenInfos rows3 =
     Inr (JRef 5,
       [Obj [(''id:1'', JRef 1)],
        Obj [(''id'', JNum 1), (''name'', JStr ''a''), (''children'', JRef 6)],
        Obj [(''id:5'', JRef 3), (''id:6'', JRef 4)],
        Obj [(''id'', JNum 5), (''name'', JStr ''b'')],
        Obj [(''id'', JNum 6), (''name'', JStr ''c'')],
        Arr [JRef 1],
        Arr [JRef 3, JRef 4]])"
  by code_simp

section \<open>Rows to tree: absent identifiers, scenarios\<close>


text \<open>
  The scenario of the specification: the one-to-one relation \<open>parent\<close> over one row
  whose \<open>parent:id\<close> is \<open>null\<close>. The tree has \<open>parent: null\<close>.
\<close>

definition parentRel :: relation where
  "parentRel = \<lparr>rel_name = ''parent'', rel_isOneToOne = True, rel_joinTable = None,
                rel_joinTableExtras = None\<rparr>"

definition parentBuilder :: rjb where
  "parentBuilder = encodeAll (new_rjb defaultOpt) ['''', ''parent'', ''parent'']"

definition parentInfo :: pathInfo where
  "parentInfo = PathInfo True ''parent'' ''parent'' (Some '''') personClass (Some parentRel) []
      (createIdGetter parentBuilder personClass ''parent'') []"

definition ownerInfo :: pathInfo where
  "ownerInfo = PathInfo False '''' '''' None personClass None []
      (createIdGetter parentBuilder personClass '''') [(''parent'', parentInfo)]"

definition parentInfos :: "(string \<times> pathInfo) list" where
  "parentInfos = [('''', ownerInfo), (''parent'', parentInfo)]"









section \<open>Join rows: duplicates\<close>

lemma uniqByLoop_subset: "set (uniqByLoop f seen xs) \<subseteq> set xs"
  by (induction xs arbitrary: seen) auto

lemma uniqByLoop_count:
  "length (filter (\<lambda>y. f y = c) (uniqByLoop f seen xs))
     = (if c \<in> f ` set xs \<and> c \<notin> set seen then 1 else 0)"
proof (induction xs arbitrary: seen)
  case Nil
  then show ?case by simp
next
  case (Cons x xs)
  show ?case
  proof (cases "f x \<in> set seen")
    case True
    then show ?thesis using Cons.IH[of seen] by auto
  next
    case False
    then show ?thesis using Cons.IH[of "f x # seen"] by auto
  qed
qed

lemma uniqByLoop_find:
  "find (\<lambda>y. f y = c) (uniqByLoop f seen xs)
     = (if c \<in> set seen then None else find (\<lambda>y. f y = c) xs)"
proof (induction xs arbitrary: seen)
  case Nil
  then show ?case by simp
next
  case (Cons x xs)
  show ?case
  proof (cases "f x \<in> set seen")
    case True
    then show ?thesis using Cons.IH[of seen] by auto
  next
    case False
    then show ?thesis using Cons.IH[of "f x # seen"] by auto
  qed
qed

lemma uniqByLoop_set_id: "set (uniqByLoop (\<lambda>x. x) seen xs) = set xs - set seen"
  by (induction xs arbitrary: seen) auto

lemma set_uniq: "set (uniq xs) = set xs"
  by (simp add: uniq_def uniqBy_def uniqByLoop_set_id)

lemma set_joinRowKeys:
  "set (joinRowKeys h models) = (\<Union>m \<in> set models. set (obj_keys (objOf h m)))"
  by (simp add: joinRowKeys_def set_uniq)

lemma propKeyLoop_cong:
  "(\<forall>k \<in> set ps. get_prop ob1 k = get_prop ob2 k) \<Longrightarrow> propKeyLoop ob1 ps key = propKeyLoop ob2 ps key"
  by (induction ps arbitrary: key) auto

lemma propKey_cong:
  assumes "\<forall>k \<in> set props. get_prop ob1 k = get_prop ob2 k"
  shows "propKey ob1 props = propKey ob2 props"
  using assms propKeyLoop_cong[OF assms, of "''''"]
  by (auto simp: propKey_def split: list.splits)

text \<open>
  Claim C2, as the code has it. The last loop of the many-to-many pass replaces the
  models of every table insertion that has models by \<open>removeDuplicates\<close>. The keys
  compared are exactly the union of the keys of all join rows of the table insertion;
  the rows kept are rows of the table insertion; for every row exactly one kept row has
  the same \<open>$propKey\<close> over these keys, and it is the first row with that key; and two
  rows with the same values under all these keys have the same \<open>$propKey\<close>, so they
  count as one. One join row is left for two paths to the same pair when the two rows
  built agree on every key of the union.
\<close>

theorem join_rows_deduplicated:
  assumes "ti_models ti \<noteq> []"
  shows "set (joinRowKeys h (ti_models ti)) = (\<Union>m \<in> set (ti_models ti). set (obj_keys (objOf h m))) \<and>
         set (ti_models (removeDuplicates h ti)) \<subseteq> set (ti_models ti) \<and>
         (\<forall>m \<in> set (ti_models ti).
            length (filter (\<lambda>x. propKey (objOf h x) (joinRowKeys h (ti_models ti))
                                 = propKey (objOf h m) (joinRowKeys h (ti_models ti)))
                      (ti_models (removeDuplicates h ti))) = 1 \<and>
            find (\<lambda>x. propKey (objOf h x) (joinRowKeys h (ti_models ti))
                        = propKey (objOf h m) (joinRowKeys h (ti_models ti)))
                 (ti_models (removeDuplicates h ti))
              = find (\<lambda>x. propKey (objOf h x) (joinRowKeys h (ti_models ti))
                            = propKey (objOf h m) (joinRowKeys h (ti_models ti)))
                     (ti_models ti)) \<and>
         (\<forall>m1 m2. (\<forall>k \<in> set (joinRowKeys h (ti_models ti)).
                      get_prop (objOf h m1) k = get_prop (objOf h m2) k) \<longrightarrow>
                   propKey (objOf h m1) (joinRowKeys h (ti_models ti))
                     = propKey (objOf h m2) (joinRowKeys h (ti_models ti)))"
proof -
  let ?keys = "joinRowKeys h (ti_models ti)"
  let ?pk = "\<lambda>m. propKey (objOf h m) ?keys"
  have r: "ti_models (removeDuplicates h ti) = uniqByLoop ?pk [] (ti_models ti)"
    using assms by (simp add: removeDuplicates_def Let_def uniqBy_def)
  have a: "set ?keys = (\<Union>m \<in> set (ti_models ti). set (obj_keys (objOf h m)))"
    by (rule set_joinRowKeys)
  have b: "set (ti_models (removeDuplicates h ti)) \<subseteq> set (ti_models ti)"
    unfolding r by (rule uniqByLoop_subset)
  have c: "length (filter (\<lambda>x. ?pk x = ?pk m) (ti_models (removeDuplicates h ti))) = 1"
    if "m \<in> set (ti_models ti)" for m
    unfolding r using that by (simp add: uniqByLoop_count)
  have d: "find (\<lambda>x. ?pk x = ?pk m) (ti_models (removeDuplicates h ti))
             = find (\<lambda>x. ?pk x = ?pk m) (ti_models ti)" for m
    unfolding r by (simp add: uniqByLoop_find)
  have e: "?pk m1 = ?pk m2"
    if "\<forall>k \<in> set ?keys. get_prop (objOf h m1) k = get_prop (objOf h m2) k" for m1 m2
    using that by (rule propKey_cong)
  from a b c d e show ?thesis by blast
qed

text \<open>
  Modelled from the spec: \<open>createJoinModels\<close> of a many-to-many relation, which is not
  part of the modelled sources. The join row combines the owner's key values, under
  the owner columns of the join table, and the related object's key values, under the
  related columns of the join table.
\<close>

definition specCreateJoinModel ::
  "string list \<Rightarrow> string list \<Rightarrow> string list \<Rightarrow> jsval list \<Rightarrow> obj \<Rightarrow> obj" where
  "specCreateJoinModel joinTableOwnerProp joinTableRelatedProp relatedProp ownerValues related =
     foldl (\<lambda>jm kv. set_prop jm (fst kv) (snd kv))
       (foldl (\<lambda>jm kv. set_prop jm (fst kv) (snd kv)) [] (zip joinTableOwnerProp ownerValues))
       (zip joinTableRelatedProp (map (get_prop related) relatedProp))"

definition joinClass :: modelClass where
  "joinClass = \<lparr>tableName = ''Person_Movie'', idColumns = [''id''], relationNames = [],
     jsonAttributes = []\<rparr>"

definition moviesRel :: manyToManyRelation where
  "moviesRel = \<lparr>mm_joinTable = ''Person_Movie'', mm_ownerProp = [''id''],
     mm_joinTableExtras = [\<lparr>joinTableCol = ''role'', joinTableProp = ''role'', aliasCol = ''role'',
                            aliasProp = ''role''\<rparr>],
     mm_joinTableModelClass = joinClass,
     mm_createJoinModel = specCreateJoinModel [''personId''] [''movieId''] [''id'']\<rparr>"

definition movieClass :: modelClass where
  "movieClass = \<lparr>tableName = ''Movie'', idColumns = [''id''], relationNames = [],
     jsonAttributes = []\<rparr>"

definition mmNode :: "string \<Rightarrow> nat \<Rightarrow> modelClass \<Rightarrow> connection list \<Rightarrow> bool \<Rightarrow> node" where
  "mmNode ident a mc conns h =
     \<lparr>node_id = ident, node_model = JRef a, node_modelClass = mc, needs = [], isNeededBy = [],
      manyToManyConnections = conns, handled = h, numHandledNeeds = 0\<rparr>"

text \<open>
  One person, one movie, and a reference to the movie. \<open>twiceGraph\<close> relates the person
  to the movie twice, both times directly; \<open>extraGraph\<close> relates them once directly and
  once through the reference, which carries the extra property \<open>role\<close>.
\<close>

definition mmStore :: heap where
  "mmStore =
     [Obj [(''id'', JNum 1), (''name'', JStr ''p'')],
      Obj [(''id'', JNum 2), (''title'', JStr ''m'')],
      Obj [(''#id'', JStr ''r''), (''#ref'', JStr ''m''), (''role'', JStr ''lead'')]]"

definition twiceGraph :: graph where
  "twiceGraph =
     \<lparr>nodes = [mmNode ''p'' 0 personClass
                  [\<lparr>conn_node = 1, conn_refNode = None, conn_relation = moviesRel\<rparr>,
                   \<lparr>conn_node = 1, conn_refNode = None, conn_relation = moviesRel\<rparr>] True,
                mmNode ''m'' 1 movieClass [] True],
      nodesById = [''p'' \<mapsto> 0, ''m'' \<mapsto> 1],
      inputNodesById = [''p'' \<mapsto> 0]\<rparr>"

definition extraGraph :: graph where
  "extraGraph =
     \<lparr>nodes = [mmNode ''p'' 0 personClass
                  [\<lparr>conn_node = 1, conn_refNode = None, conn_relation = moviesRel\<rparr>,
                   \<lparr>conn_node = 1, conn_refNode = Some 2, conn_relation = moviesRel\<rparr>] True,
                mmNode ''m'' 1 movieClass [] True,
                mmNode ''r'' 2 movieClass [] True],
      nodesById = [''p'' \<mapsto> 0, ''m'' \<mapsto> 1, ''r'' \<mapsto> 2],
      inputNodesById = [''p'' \<mapsto> 0]\<rparr>"

text \<open>
  The store and the table insertion of the join table of \<open>twiceGraph\<close> before the
  duplicates are removed: two join rows with the same values.
\<close>

definition twiceStore :: heap where
  "twiceStore = mmStore @
     [Obj [(''personId'', JNum 1), (''movieId'', JNum 2)],
      Obj [(''personId'', JNum 1), (''movieId'', JNum 2)]]"

definition twiceInsertion :: tableInsertion where
  "twiceInsertion = \<lparr>ti_modelClass = joinClass, isJoinTableInsertion = True,
     ti_models = [JRef 3, JRef 4], isInputModel = [False, False]\<rparr>"

theorem join_rows_deduplicated_witness:
  "ti_models twiceInsertion \<noteq> [] \<and>
   JRef 4 \<in> set (ti_models twiceInsertion) \<and>
   length (filter (\<lambda>x. propKey (objOf twiceStore x) (joinRowKeys twiceStore (ti_models twiceInsertion))
                        = propKey (objOf twiceStore (JRef 4)) (joinRowKeys twiceStore (ti_models twiceInsertion)))
             (ti_models (removeDuplicates twiceStore twiceInsertion))) = 1 \<and>
   joinRowKeys twiceStore (ti_models twiceInsertion) = [''personId'', ''movieId''] \<and>
   ti_models (removeDuplicates twiceStore twiceInsertion) = [JRef 3] \<and>
   map (\<lambda>kv. (fst kv, ti_models (snd kv))) (fst (createManyToManyRelationJoinRowBatch twiceGraph mmStore))
     = [(''Person_Movie'', [JRef 3])] \<and>
   snd (createManyToManyRelationJoinRowBatch twiceGraph mmStore) = twiceStore"
proof -
  have n: "ti_models twiceInsertion \<noteq> []" by (simp add: twiceInsertion_def)
  have m: "JRef 4 \<in> set (ti_models twiceInsertion)" by (simp add: twiceInsertion_def)
  from join_rows_deduplicated[OF n, of twiceStore] m
  have c: "length (filter (\<lambda>x. propKey (objOf twiceStore x) (joinRowKeys twiceStore (ti_models twiceInsertion))
                        = propKey (objOf twiceStore (JRef 4)) (joinRowKeys twiceStore (ti_models twiceInsertion)))
             (ti_models (removeDuplicates twiceStore twiceInsertion))) = 1"
    by blast
  have k: "joinRowKeys twiceStore (ti_models twiceInsertion) = [''personId'', ''movieId'']"
    by code_simp
  have r: "ti_models (removeDuplicates twiceStore twiceInsertion) = [JRef 3]" by code_simp
  have b: "map (\<lambda>kv. (fst kv, ti_models (snd kv))) (fst (createManyToManyRelationJoinRowBatch twiceGraph mmStore))
     = [(''Person_Movie'', [JRef 3])]" by code_simp
  have s: "snd (createManyToManyRelationJoinRowBatch twiceGraph mmStore) = twiceStore" by code_simp
  from n m c k r b s show ?thesis by blast
qed

text \<open>
  The same person and the same movie, related once directly and once through a
  reference that carries \<open>role\<close>: the two join rows differ in \<open>role\<close> and both are kept.
\<close>

theorem same_pair_with_extra_gives_two_join_rows:
  "map (\<lambda>c. (conn_node c, mm_joinTable (conn_relation c))) (manyToManyConnections (nodes extraGraph ! 0))
     = [(1, ''Person_Movie''), (1, ''Person_Movie'')] \<and>
   map (\<lambda>kv. (fst kv, ti_models (snd kv))) (fst (createManyToManyRelationJoinRowBatch extraGraph mmStore))
     = [(''Person_Movie'', [JRef 3, JRef 4])] \<and>
   snd (createManyToManyRelationJoinRowBatch extraGraph mmStore) = mmStore @
     [Obj [(''personId'', JNum 1), (''movieId'', JNum 2)],
      Obj [(''personId'', JNum 1), (''movieId'', JNum 2), (''role'', JStr ''lead'')]]"
proof -
  have a: "map (\<lambda>c. (conn_node c, mm_joinTable (conn_relation c))) (manyToManyConnections (nodes extraGraph ! 0))
     = [(1, ''Person_Movie''), (1, ''Person_Movie'')]" by code_simp
  have b: "map (\<lambda>kv. (fst kv, ti_models (snd kv))) (fst (createManyToManyRelationJoinRowBatch extraGraph mmStore))
     = [(''Person_Movie'', [JRef 3, JRef 4])]" by code_simp
  have c: "snd (createManyToManyRelationJoinRowBatch extraGraph mmStore) = mmStore @
     [Obj [(''personId'', JNum 1), (''movieId'', JNum 2)],
      Obj [(''personId'', JNum 1), (''movieId'', JNum 2), (''role'', JStr ''lead'')]]" by code_simp
  from a b c show ?thesis by blast
qed


section \<open>Objects: deleting a property\<close>

lemma map_of_delete_prop:
  "map_of (delete_prop ob k) k' = (if k' = k then None else map_of ob k')"
  by (induction ob) (auto simp: delete_prop_def)

lemma get_delete_prop:
  "get_prop (delete_prop ob k) k' = (if k' = k then JUndefined else get_prop ob k')"
  by (simp add: get_prop_def map_of_delete_prop)

lemma has_delete_prop: "has_prop (delete_prop ob k) k' = (k' \<noteq> k \<and> has_prop ob k')"
  by (simp add: has_prop_def map_of_delete_prop)


lemma delete_prop_absent: "\<not> has_prop ob k \<Longrightarrow> delete_prop ob k = ob"
proof -
  assume "\<not> has_prop ob k"
  then have "\<forall>kv \<in> set ob. fst kv \<noteq> k"
    by (auto simp: has_prop_def map_of_eq_None_iff image_iff)
  then show ?thesis by (simp add: delete_prop_def)
qed

lemma delete_prop_idem: "delete_prop (delete_prop ob k) k = delete_prop ob k"
  by (simp add: delete_prop_def)

lemma omitArray_uid: "omitArray ob [uidProp] = delete_prop ob uidProp"
  by (simp add: startsWithDollar_def uidProp_def delete_prop_absent)

section \<open>Stripping the uids\<close>

lemma omitProps_uid:
  "omitProps h m [uidProp] = Inr h1 \<Longrightarrow>
     \<exists>a ob. m = JRef a \<and> a < length h \<and> h ! a = Obj ob \<and> h1 = h[a := Obj (delete_prop ob uidProp)]"
  by (auto simp: omitProps_def omitArray_uid simp del: omitArray.simps
      split: jsval.splits if_splits cell.splits)

definition stripCell :: "cell \<Rightarrow> cell" where
  "stripCell c = (case c of Obj ob \<Rightarrow> Obj (delete_prop ob uidProp) | Arr xs \<Rightarrow> Arr xs)"

lemma omitUidsLoop_result:
  "omitUidsLoop h ms = Inr h' \<Longrightarrow>
     length h' = length h \<and>
     (\<forall>a < length h. h' ! a = (if JRef a \<in> set ms then stripCell (h ! a) else h ! a)) \<and>
     (\<forall>m \<in> set ms. \<exists>a ob. m = JRef a \<and> a < length h \<and> h ! a = Obj ob)"
proof (induction ms arbitrary: h)
  case Nil
  then show ?case by simp
next
  case (Cons m ms)
  from Cons.prems obtain h1 where h1: "omitProps h m [uidProp] = Inr h1"
    and rest: "omitUidsLoop h1 ms = Inr h'"
    by (auto split: sum.splits)
  from omitProps_uid[OF h1] obtain a ob where
    m: "m = JRef a" and a: "a < length h" and ob: "h ! a = Obj ob"
    and h1': "h1 = h[a := Obj (delete_prop ob uidProp)]" by blast
  from Cons.IH[OF rest] have
    l: "length h' = length h1"
    and c: "\<forall>b < length h1. h' ! b = (if JRef b \<in> set ms then stripCell (h1 ! b) else h1 ! b)"
    and v: "\<forall>m' \<in> set ms. \<exists>b ob'. m' = JRef b \<and> b < length h1 \<and> h1 ! b = Obj ob'"
    by blast+
  have l': "length h' = length h" using l h1' by simp
  have c': "h' ! b = (if JRef b \<in> set (m # ms) then stripCell (h ! b) else h ! b)"
    if "b < length h" for b
  proof (cases "b = a")
    case True
    with c that h1' a ob m show ?thesis
      by (auto simp: stripCell_def delete_prop_idem)
  next
    case False
    with c that h1' m show ?thesis by auto
  qed
  have v': "\<exists>b ob'. m' = JRef b \<and> b < length h \<and> h ! b = Obj ob'" if "m' \<in> set (m # ms)" for m'
  proof (cases "m' = m")
    case True
    with m a ob show ?thesis by blast
  next
    case False
    with that have "m' \<in> set ms" by simp
    with v obtain b ob' where b: "m' = JRef b" "b < length h1" "h1 ! b = Obj ob'" by blast
    show ?thesis
    proof (cases "b = a")
      case True
      with b m a ob show ?thesis by blast
    next
      case False
      with b h1' show ?thesis by auto
    qed
  qed
  from l' c' v' show ?case by blast
qed

lemma omitUids_result:
  assumes "omitUids h ti = Inr (uids, h')"
  shows "uids = map (\<lambda>m. get_prop (objOf h m) uidProp) (ti_models ti)"
    and "length h' = length h"
    and "\<And>a. a < length h \<Longrightarrow> JRef a \<notin> set (ti_models ti) \<Longrightarrow> h' ! a = h ! a"
    and "\<And>m. m \<in> set (ti_models ti) \<Longrightarrow> objOf h' m = delete_prop (objOf h m) uidProp"
proof -
  from assms have u: "uids = map (\<lambda>m. get_prop (objOf h m) uidProp) (ti_models ti)"
    and l: "omitUidsLoop h (ti_models ti) = Inr h'"
    by (auto simp: omitUids_def Let_def split: sum.splits)
  note r = omitUidsLoop_result[OF l]
  show "uids = map (\<lambda>m. get_prop (objOf h m) uidProp) (ti_models ti)" by (rule u)
  show "length h' = length h" using r by blast
  show "h' ! a = h ! a" if "a < length h" "JRef a \<notin> set (ti_models ti)" for a
    using r that by simp
  show "objOf h' m = delete_prop (objOf h m) uidProp" if "m \<in> set (ti_models ti)" for m
  proof -
    from r that obtain a ob where m: "m = JRef a" "a < length h" "h ! a = Obj ob" by blast
    with r that have "h' ! a = stripCell (h ! a)" by simp
    with m r show ?thesis by (simp add: objOf_def stripCell_def)
  qed
qed

section \<open>A callback that records the rows\<close>


section \<open>The batch of a scan\<close>

definition eligible :: "node \<Rightarrow> bool" where
  "eligible nd \<longleftrightarrow> \<not> handled nd \<and> length (needs nd) = numHandledNeeds nd"

definition batchModels :: "batch \<Rightarrow> jsval list" where
  "batchModels batch = concat (map (\<lambda>kv. ti_models (snd kv)) batch)"

lemma batchModels_simps [simp]:
  "batchModels [] = []"
  "batchModels (kv # b) = ti_models (snd kv) @ batchModels b"
  by (simp_all add: batchModels_def)

lemma batchPut_new:
  "map_of batch k = None \<Longrightarrow>
     mset (batchModels (batchPut batch k v)) = mset (batchModels batch) + mset (ti_models v)"
  by (induction batch) (auto split: if_splits)

lemma batchPut_old:
  "map_of batch k = Some old \<Longrightarrow> ti_models v = ti_models old @ [m] \<Longrightarrow>
     mset (batchModels (batchPut batch k v)) = mset (batchModels batch) + {#m#}"
  by (induction batch) (auto split: if_splits)

lemma createBatchLoop_models:
  "mset (batchModels (createBatchLoop g nds batch))
     = mset (batchModels batch) + mset (map node_model (filter eligible nds))"
proof (induction nds arbitrary: batch)
  case Nil
  then show ?case by simp
next
  case (Cons nd nds)
  show ?case
  proof (cases "eligible nd")
    case False
    then show ?thesis using Cons.IH[of batch] by (auto simp: eligible_def)
  next
    case True
    let ?tn = "tableName (node_modelClass nd)"
    show ?thesis
    proof (cases "map_of batch ?tn")
      case None
      from batchPut_new[OF None] True show ?thesis
        by (simp add: eligible_def Cons.IH Let_def None newTableInsertion_def)
    next
      case (Some old)
      from batchPut_old[OF Some, of _ "node_model nd"] True show ?thesis
        by (simp add: eligible_def Cons.IH Let_def Some)
    qed
  qed
qed

lemma createBatch_models:
  "mset (batchModels (createBatch g)) = mset (map node_model (filter eligible (nodes g)))"
  by (simp add: createBatch_def createBatchLoop_models)

lemma set_createBatch_models:
  "set (batchModels (createBatch g)) = node_model ` {nd \<in> set (nodes g). eligible nd}"
proof -
  have "set (batchModels (createBatch g)) = set_mset (mset (batchModels (createBatch g)))" by simp
  also have "\<dots> = set (map node_model (filter eligible (nodes g)))"
    by (simp only: createBatch_models set_mset_mset)
  finally show ?thesis by auto
qed

lemma batchPut_nonempty: "batchPut batch k v \<noteq> []"
  by (cases batch) (auto split: if_splits)

lemma createBatchLoop_nonempty: "batch \<noteq> [] \<Longrightarrow> createBatchLoop g nds batch \<noteq> []"
  by (induction nds arbitrary: batch) (auto simp: Let_def batchPut_nonempty)

lemma createBatchLoop_empty_iff:
  "createBatchLoop g nds [] = [] \<longleftrightarrow> filter eligible nds = []"
proof (induction nds)
  case Nil
  then show ?case by simp
next
  case (Cons nd nds)
  show ?case
  proof (cases "eligible nd")
    case True
    then show ?thesis
      by (simp add: eligible_def Let_def createBatchLoop_nonempty batchPut_nonempty)
  next
    case False
    then show ?thesis using Cons.IH by (auto simp: eligible_def)
  qed
qed

lemma createBatch_empty_iff: "createBatch g = [] \<longleftrightarrow> (\<forall>nd \<in> set (nodes g). \<not> eligible nd)"
  by (simp add: createBatch_def createBatchLoop_empty_iff filter_empty_conv)

lemma batchPut_entries:
  "(k', v') \<in> set (batchPut batch k v) \<Longrightarrow> (k', v') = (k, v) \<or> (k', v') \<in> set batch"
  by (induction batch) (auto split: if_splits)

lemma createBatchLoop_not_join:
  "\<forall>kv \<in> set batch. \<not> isJoinTableInsertion (snd kv) \<Longrightarrow>
   \<forall>kv \<in> set (createBatchLoop g nds batch). \<not> isJoinTableInsertion (snd kv)"
proof (induction nds arbitrary: batch)
  case Nil
  then show ?case by simp
next
  case (Cons nd nds)
  show ?case
  proof (cases "eligible nd")
    case False
    then show ?thesis using Cons by (auto simp: eligible_def)
  next
    case True
    let ?tn = "tableName (node_modelClass nd)"
    let ?ti = "case map_of batch ?tn of None \<Rightarrow> newTableInsertion (node_modelClass nd) False | Some ti \<Rightarrow> ti"
    let ?b = "batchPut batch ?tn
                (?ti\<lparr>ti_models := ti_models ?ti @ [node_model nd],
                     isInputModel := isInputModel ?ti @ [inputNodesById g (node_id nd) \<noteq> None]\<rparr>)"
    have ti: "\<not> isJoinTableInsertion ?ti"
    proof (cases "map_of batch ?tn")
      case None
      then show ?thesis by (simp add: newTableInsertion_def)
    next
      case (Some old)
      then have "(?tn, old) \<in> set batch" by (rule map_of_SomeD)
      with Cons.prems Some show ?thesis by auto
    qed
    have "\<forall>kv \<in> set ?b. \<not> isJoinTableInsertion (snd kv)"
    proof
      fix kv assume "kv \<in> set ?b"
      then have "kv = (?tn, ?ti\<lparr>ti_models := ti_models ?ti @ [node_model nd],
                     isInputModel := isInputModel ?ti @ [inputNodesById g (node_id nd) \<noteq> None]\<rparr>)
                 \<or> kv \<in> set batch"
        using batchPut_entries[of "fst kv" "snd kv" batch] by simp
      with ti Cons.prems show "\<not> isJoinTableInsertion (snd kv)" by auto
    qed
    from Cons.IH[OF this] True show ?thesis by (simp add: eligible_def Let_def)
  qed
qed

lemma createBatch_not_join:
  "kv \<in> set (createBatch g) \<Longrightarrow> \<not> isJoinTableInsertion (snd kv)"
  using createBatchLoop_not_join[of "[]" g "nodes g"] by (simp add: createBatch_def)


section \<open>Marking a batch as handled\<close>

text \<open>
  Marking changes the flag \<open>handled\<close> and the counter \<open>numHandledNeeds\<close> of nodes and
  nothing else of a graph: \<open>same_graph\<close> relates two graphs that differ in these only.
\<close>

definition unmarked :: "node \<Rightarrow> node" where
  "unmarked nd = nd\<lparr>handled := False, numHandledNeeds := 0\<rparr>"

lemma unmarked_upd [simp]:
  "unmarked (nd\<lparr>handled := b\<rparr>) = unmarked nd"
  "unmarked (nd\<lparr>numHandledNeeds := k\<rparr>) = unmarked nd"
  by (simp_all add: unmarked_def)

lemma unmarked_fields:
  assumes "unmarked a = unmarked b"
  shows "node_id a = node_id b" "node_model a = node_model b"
    "node_modelClass a = node_modelClass b" "needs a = needs b"
    "isNeededBy a = isNeededBy b" "manyToManyConnections a = manyToManyConnections b"
proof -
  have "node_id (unmarked a) = node_id (unmarked b)" using assms by simp
  then show "node_id a = node_id b" by (simp add: unmarked_def)
  have "node_model (unmarked a) = node_model (unmarked b)" using assms by simp
  then show "node_model a = node_model b" by (simp add: unmarked_def)
  have "node_modelClass (unmarked a) = node_modelClass (unmarked b)" using assms by simp
  then show "node_modelClass a = node_modelClass b" by (simp add: unmarked_def)
  have "needs (unmarked a) = needs (unmarked b)" using assms by simp
  then show "needs a = needs b" by (simp add: unmarked_def)
  have "isNeededBy (unmarked a) = isNeededBy (unmarked b)" using assms by simp
  then show "isNeededBy a = isNeededBy b" by (simp add: unmarked_def)
  have "manyToManyConnections (unmarked a) = manyToManyConnections (unmarked b)" using assms by simp
  then show "manyToManyConnections a = manyToManyConnections b" by (simp add: unmarked_def)
qed

definition same_graph :: "graph \<Rightarrow> graph \<Rightarrow> bool" where
  "same_graph g g1 \<longleftrightarrow>
     nodesById g1 = nodesById g \<and> inputNodesById g1 = inputNodesById g \<and>
     map unmarked (nodes g1) = map unmarked (nodes g)"

lemma same_graph_refl: "same_graph g g"
  by (simp add: same_graph_def)

lemma same_graph_trans: "same_graph g g1 \<Longrightarrow> same_graph g1 g2 \<Longrightarrow> same_graph g g2"
  by (simp add: same_graph_def)

lemma same_graph_length: "same_graph g g1 \<Longrightarrow> length (nodes g1) = length (nodes g)"
  by (metis same_graph_def length_map)

lemma same_graph_nth:
  assumes "same_graph g g1" "n < length (nodes g)"
  shows "unmarked (nodes g1 ! n) = unmarked (nodes g ! n)"
proof -
  have l: "n < length (nodes g1)" using assms same_graph_length by simp
  have "map unmarked (nodes g1) ! n = map unmarked (nodes g) ! n"
    using assms(1) by (simp add: same_graph_def)
  with l assms(2) show ?thesis by simp
qed

lemma map_update_same: "f x = f (ns ! i) \<Longrightarrow> map f (ns[i := x]) = map f ns"
proof (cases "i < length ns")
  case True
  assume "f x = f (ns ! i)"
  with True have "(map f ns)[i := f x] = map f ns"
    by (metis list_update_id nth_map)
  then show ?thesis by (simp add: map_update)
next
  case False
  then show ?thesis by (simp add: list_update_beyond)
qed

lemma incrementNeeds_length [simp]: "length (incrementNeeds ns deps) = length ns"
  by (induction deps arbitrary: ns) simp_all

lemma incrementNeeds_unmarked [simp]: "map unmarked (incrementNeeds ns deps) = map unmarked ns"
  by (induction deps arbitrary: ns) (simp_all add: map_update_same)

lemma incrementNeeds_handled [simp]: "map handled (incrementNeeds ns deps) = map handled ns"
  by (induction deps arbitrary: ns) (simp_all add: map_update_same)

lemma incrementNeeds_handled_nth:
  "n < length ns \<Longrightarrow> handled (incrementNeeds ns deps ! n) = handled (ns ! n)"
  by (metis incrementNeeds_handled incrementNeeds_length nth_map)


text \<open>
  The node that \<open>_markBatchHandled\<close> finds for a model, and the body of its loop for the
  node found.
\<close>

definition lookupNode :: "graph \<Rightarrow> heap \<Rightarrow> jsval \<Rightarrow> nat option" where
  "lookupNode g h m =
     (case readProp h m uidProp of Inl e \<Rightarrow> None | Inr ident \<Rightarrow> nodesById g (ToString ident))"

lemma lookupNode_same: "same_graph g g1 \<Longrightarrow> lookupNode g1 h m = lookupNode g h m"
  by (simp add: lookupNode_def same_graph_def split: sum.splits)

definition markOne :: "graph \<Rightarrow> nat \<Rightarrow> graph" where
  "markOne g n =
     (let ns1 = incrementNeeds (nodes g) (isNeededBy (nodes g ! n));
          ns2 = ns1[n := (ns1 ! n)\<lparr>handled := True\<rparr>]
      in g\<lparr>nodes := ns2\<rparr>)"

lemma markModelsHandled_Cons:
  "markModelsHandled h g (m # ms) =
     (case lookupNode g h m of None \<Rightarrow>
        (case readProp h m uidProp of Inl e \<Rightarrow> Inl e | Inr i \<Rightarrow> Inl TypeError)
      | Some n \<Rightarrow> markModelsHandled h (markOne g n) ms)"
  by (simp add: lookupNode_def markOne_def Let_def split: sum.splits option.splits)

lemma markOne_same: "same_graph g (markOne g n)"
  by (simp add: same_graph_def markOne_def Let_def map_update_same)

lemma markOne_length [simp]: "length (nodes (markOne g n)) = length (nodes g)"
  by (simp add: markOne_def Let_def)

lemma markOne_handled:
  "k < length (nodes g) \<Longrightarrow> handled (nodes (markOne g n) ! k) = (handled (nodes g ! k) \<or> k = n)"
  by (cases "k = n") (simp_all add: markOne_def Let_def incrementNeeds_handled_nth)


lemma markModelsHandled_props:
  "markModelsHandled h g ms = Inr g1 \<Longrightarrow>
     same_graph g g1 \<and>
     (\<forall>m \<in> set ms. lookupNode g h m \<noteq> None) \<and>
     (\<forall>k < length (nodes g). handled (nodes g1 ! k)
         = (handled (nodes g ! k) \<or> Some k \<in> lookupNode g h ` set ms))"
proof (induction ms arbitrary: g)
  case Nil
  then show ?case by (simp add: same_graph_refl)
next
  case (Cons m ms)
  from Cons.prems obtain n where n: "lookupNode g h m = Some n"
    and r: "markModelsHandled h (markOne g n) ms = Inr g1"
    by (auto simp: markModelsHandled_Cons simp del: markModelsHandled.simps
        split: option.splits sum.splits)
  note s = markOne_same[of g n]
  from Cons.IH[OF r] have a: "same_graph (markOne g n) g1"
    and b: "\<forall>m \<in> set ms. lookupNode (markOne g n) h m \<noteq> None"
    and c: "\<forall>k < length (nodes (markOne g n)). handled (nodes g1 ! k)
         = (handled (nodes (markOne g n) ! k) \<or> Some k \<in> lookupNode (markOne g n) h ` set ms)"
    by blast+
  have l: "lookupNode (markOne g n) h = lookupNode g h"
    using lookupNode_same[OF s] by auto
  have 1: "same_graph g g1" using s a by (rule same_graph_trans)
  have 2: "\<forall>m' \<in> set (m # ms). lookupNode g h m' \<noteq> None" using b n l by auto
  have 3: "handled (nodes g1 ! k) = (handled (nodes g ! k) \<or> Some k \<in> lookupNode g h ` set (m # ms))"
    if "k < length (nodes g)" for k
    using c that n l markOne_handled[OF that, of n] by auto
  from 1 2 3 show ?case by blast
qed

lemma markModelsHandled_succeeds:
  "\<forall>m \<in> set ms. lookupNode g h m \<noteq> None \<Longrightarrow> \<exists>g1. markModelsHandled h g ms = Inr g1"
proof (induction ms arbitrary: g)
  case Nil
  then show ?case by simp
next
  case (Cons m ms)
  then obtain n where n: "lookupNode g h m = Some n" by auto
  have "\<forall>m \<in> set ms. lookupNode (markOne g n) h m \<noteq> None"
    using Cons.prems lookupNode_same[OF markOne_same[of g n]] by simp
  from Cons.IH[OF this] n show ?case
    by (simp add: markModelsHandled_Cons del: markModelsHandled.simps)
qed

section \<open>The graph and the store\<close>

text \<open>
  What the inserter relies on in the graph that it is given. A reference to a node
  names an existing node (\<open>refs_ok\<close>). The model of every node that is not handled yet
  is an object of the store, and the graph finds that node under the uid of the model
  (\<open>ids_ok\<close>): \<open>lookupNode\<close> is the lookup \<open>nodesById[model[uidProp]]\<close> of
  \<open>_markBatchHandled\<close>.
\<close>

definition isObj :: "heap \<Rightarrow> jsval \<Rightarrow> bool" where
  "isObj h m =
     (case m of
        JRef a \<Rightarrow> a < length h \<and> (case h ! a of Obj ob \<Rightarrow> True | Arr xs \<Rightarrow> False)
      | _ \<Rightarrow> False)"

definition refs_ok :: "graph \<Rightarrow> bool" where
  "refs_ok g \<longleftrightarrow> (\<forall>k n. nodesById g k = Some n \<longrightarrow> n < length (nodes g))"

definition ids_ok :: "graph \<Rightarrow> heap \<Rightarrow> bool" where
  "ids_ok g h \<longleftrightarrow>
     (\<forall>n < length (nodes g). \<not> handled (nodes g ! n) \<longrightarrow>
        isObj h (node_model (nodes g ! n)) \<and>
        lookupNode g h (node_model (nodes g ! n)) = Some n)"

text \<open>
  What the inserter relies on in the code that it calls, the resolvers of the graph and
  the insert callback: they may add cells to the store and change its objects, but an
  object stays an object and keeps the value of its uid (\<open>uid_frame\<close>).
\<close>

definition uid_frame :: "heap \<Rightarrow> heap \<Rightarrow> bool" where
  "uid_frame h h' \<longleftrightarrow>
     length h \<le> length h' \<and>
     (\<forall>a < length h. \<forall>ob. h ! a = Obj ob \<longrightarrow>
        (\<exists>ob'. h' ! a = Obj ob' \<and> get_prop ob' uidProp = get_prop ob uidProp))"

definition dep_ok :: "dependency \<Rightarrow> bool" where
  "dep_ok d \<longleftrightarrow> (\<forall>m h h'. dep_resolve d m h = Some h' \<longrightarrow> uid_frame h h')"

definition resolvers_ok :: "graph \<Rightarrow> bool" where
  "resolvers_ok g \<longleftrightarrow> (\<forall>nd \<in> set (nodes g). \<forall>d \<in> set (isNeededBy nd). dep_ok d)"

definition pending_ok :: "'s pending \<Rightarrow> bool" where
  "pending_ok p \<longleftrightarrow> (\<forall>h db h' db'. p (h, db) = Some (h', db') \<longrightarrow> uid_frame h h')"

definition inserter_ok :: "'s insertCallback \<Rightarrow> bool" where
  "inserter_ok inserter \<longleftrightarrow> (\<forall>ti h. pending_ok (inserter ti h))"

lemma uid_frame_refl: "uid_frame h h"
  by (simp add: uid_frame_def)

lemma uid_frame_trans:
  assumes "uid_frame h h1" "uid_frame h1 h2"
  shows "uid_frame h h2"
  unfolding uid_frame_def
proof (intro conjI allI impI)
  show "length h \<le> length h2" using assms by (simp add: uid_frame_def)
next
  fix a ob assume a: "a < length h" and o: "h ! a = Obj ob"
  from assms(1) a o obtain ob1 where 1: "h1 ! a = Obj ob1"
    "get_prop ob1 uidProp = get_prop ob uidProp"
    unfolding uid_frame_def by blast
  from assms(1) a have "a < length h1" by (simp add: uid_frame_def)
  with assms(2) 1 obtain ob2 where "h2 ! a = Obj ob2"
    "get_prop ob2 uidProp = get_prop ob1 uidProp"
    unfolding uid_frame_def by blast
  with 1 show "\<exists>ob'. h2 ! a = Obj ob' \<and> get_prop ob' uidProp = get_prop ob uidProp" by simp
qed

lemma isObj_cell: "isObj h m \<longleftrightarrow> (\<exists>a ob. m = JRef a \<and> a < length h \<and> h ! a = Obj ob)"
  by (cases m) (simp_all add: isObj_def split: cell.splits)

lemma uid_frame_model:
  assumes "uid_frame h h'" "isObj h m"
  shows "isObj h' m" "readProp h' m uidProp = readProp h m uidProp"
proof -
  from assms(2) obtain a ob where m: "m = JRef a" "a < length h" "h ! a = Obj ob"
    unfolding isObj_cell by blast
  from assms(1) have l: "length h \<le> length h'"
    and c: "\<forall>a < length h. \<forall>ob. h ! a = Obj ob \<longrightarrow>
        (\<exists>ob'. h' ! a = Obj ob' \<and> get_prop ob' uidProp = get_prop ob uidProp)"
    unfolding uid_frame_def by blast+
  from c m(2,3) obtain ob' where o: "h' ! a = Obj ob'" "get_prop ob' uidProp = get_prop ob uidProp"
    by blast
  from l m(2) have l': "a < length h'" by simp
  from m(1) o l' show "isObj h' m" unfolding isObj_cell by blast
  from m o l' show "readProp h' m uidProp = readProp h m uidProp" by simp
qed

lemma lookupNode_frame: "uid_frame h h' \<Longrightarrow> isObj h m \<Longrightarrow> lookupNode g h' m = lookupNode g h m"
  using uid_frame_model(2)[of h h' m] by (simp add: lookupNode_def)

lemma ids_ok_frame:
  assumes "ids_ok g h" "uid_frame h h'"
  shows "ids_ok g h'"
  unfolding ids_ok_def
proof (intro allI impI)
  fix n assume "n < length (nodes g)" "\<not> handled (nodes g ! n)"
  with assms(1) have o: "isObj h (node_model (nodes g ! n))"
    and l: "lookupNode g h (node_model (nodes g ! n)) = Some n"
    by (simp_all add: ids_ok_def)
  from uid_frame_model(1)[OF assms(2) o] lookupNode_frame[OF assms(2) o, of g] l
  show "isObj h' (node_model (nodes g ! n)) \<and> lookupNode g h' (node_model (nodes g ! n)) = Some n"
    by simp
qed

lemma same_cell_model:
  assumes "isObj h m" "length h' = length h" "\<And>a. m = JRef a \<Longrightarrow> h' ! a = h ! a"
  shows "isObj h' m" "readProp h' m uidProp = readProp h m uidProp"
proof -
  from assms(1) obtain a ob where m: "m = JRef a" "a < length h" "h ! a = Obj ob"
    unfolding isObj_cell by blast
  with assms(2,3) show "isObj h' m" by (simp add: isObj_def)
  from m assms(2,3) show "readProp h' m uidProp = readProp h m uidProp" by simp
qed

lemma writeProp_frame:
  assumes "k \<noteq> uidProp" "writeProp h r k v = Inr h'"
  shows "uid_frame h h'"
proof (cases r)
  case (JRef a)
  show ?thesis
  proof (cases "a < length h")
    case True
    note a = this
    show ?thesis
    proof (cases "h ! a")
      case (Obj ob)
      with assms JRef a have h': "h' = h[a := Obj (set_prop ob k v)]" by simp
      show ?thesis unfolding uid_frame_def h'
      proof (intro conjI allI impI)
        show "length h \<le> length (h[a := Obj (set_prop ob k v)])" by simp
      next
        fix b ob0 assume b: "b < length h" and o: "h ! b = Obj ob0"
        show "\<exists>ob'. h[a := Obj (set_prop ob k v)] ! b = Obj ob' \<and>
                    get_prop ob' uidProp = get_prop ob0 uidProp"
        proof (cases "b = a")
          case True
          with b o Obj assms(1) show ?thesis by (simp add: get_set_prop)
        next
          case False
          with b o show ?thesis by simp
        qed
      qed
    next
      case (Arr xs)
      with assms JRef a show ?thesis by (simp add: uid_frame_refl)
    qed
  next
    case False
    with assms JRef show ?thesis by (simp add: uid_frame_refl)
  qed
qed (use assms in simp_all)

section \<open>Starting and settling the insertions\<close>

lemma startInsertion_result:
  assumes "startInsertion inserter ti h = Inr (s, h1)"
  shows "length h1 = length h"
    and "\<And>a. a < length h \<Longrightarrow> JRef a \<notin> set (ti_models ti) \<Longrightarrow> h1 ! a = h ! a"
    and "\<exists>h0. st_promise s = inserter ti h0"
    and "st_insertion s = ti"
proof -
  show "length h1 = length h"
  proof (cases "isJoinTableInsertion ti")
    case True
    with assms show ?thesis by (simp add: startInsertion_def)
  next
    case False
    with assms obtain uids where "omitUids h ti = Inr (uids, h1)"
      by (auto simp: startInsertion_def split: sum.splits)
    then show ?thesis by (rule omitUids_result(2))
  qed
  show "h1 ! a = h ! a" if "a < length h" "JRef a \<notin> set (ti_models ti)" for a
  proof (cases "isJoinTableInsertion ti")
    case True
    with assms show ?thesis by (simp add: startInsertion_def)
  next
    case False
    with assms obtain uids where "omitUids h ti = Inr (uids, h1)"
      by (auto simp: startInsertion_def split: sum.splits)
    from omitUids_result(3)[OF this that] show ?thesis .
  qed
  show "\<exists>h0. st_promise s = inserter ti h0"
    using assms by (auto simp: startInsertion_def split: if_splits sum.splits)
  show "st_insertion s = ti"
    using assms by (auto simp: startInsertion_def split: if_splits sum.splits)
qed

lemma startInsertions_result:
  "startInsertions inserter batch h = Inr (ss, h1) \<Longrightarrow>
     length h1 = length h \<and>
     (\<forall>a < length h. JRef a \<notin> set (batchModels batch) \<longrightarrow> h1 ! a = h ! a) \<and>
     (\<forall>s \<in> set ss. \<exists>ti h0. st_promise s = inserter ti h0) \<and>
     map st_insertion ss = map snd batch"
proof (induction batch arbitrary: h ss)
  case Nil
  then show ?case by simp
next
  case (Cons kv batch)
  from Cons.prems obtain s hm ss' where
    s: "startInsertion inserter (snd kv) h = Inr (s, hm)"
    and r: "startInsertions inserter batch hm = Inr (ss', h1)"
    and ss: "ss = s # ss'"
    by (auto split: sum.splits)
  note a = startInsertion_result[OF s]
  from Cons.IH[OF r] have
    b1: "length h1 = length hm"
    and b2: "\<forall>a < length hm. JRef a \<notin> set (batchModels batch) \<longrightarrow> h1 ! a = hm ! a"
    and b3: "\<forall>s \<in> set ss'. \<exists>ti h0. st_promise s = inserter ti h0"
    and b4: "map st_insertion ss' = map snd batch"
    by blast+
  have 1: "length h1 = length h" using a(1) b1 by simp
  have 2: "\<forall>c < length h. JRef c \<notin> set (batchModels (kv # batch)) \<longrightarrow> h1 ! c = h ! c"
    using a(1) a(2) b2 by simp
  have 3: "\<forall>s \<in> set ss. \<exists>ti h0. st_promise s = inserter ti h0"
    using a(3) b3 ss by auto
  have 4: "map st_insertion ss = map snd (kv # batch)" using a(4) b4 ss by simp
  from 1 2 3 4 show ?case by blast
qed

lemma resolveAll_frame:
  "\<forall>d \<in> set deps. dep_ok d \<Longrightarrow> resolveAll deps m h = Inr h' \<Longrightarrow> uid_frame h h'"
proof (induction deps arbitrary: h)
  case Nil
  then show ?case by (simp add: uid_frame_refl)
next
  case (Cons d deps)
  from Cons.prems(2) obtain h1 where 1: "dep_resolve d m h = Some h1"
    and 2: "resolveAll deps m h1 = Inr h'"
    by (auto split: option.splits)
  from Cons.prems(1) 1 have "uid_frame h h1" by (auto simp: dep_ok_def)
  moreover from Cons.IH[OF _ 2] Cons.prems(1) have "uid_frame h1 h'" by simp
  ultimately show ?case by (rule uid_frame_trans)
qed

lemma resolveDepsLoop_frame:
  assumes "refs_ok g" "resolvers_ok g"
  shows "resolveDepsLoop g ms uids h = Inr h' \<Longrightarrow> uid_frame h h'"
proof (induction ms arbitrary: uids h)
  case Nil
  then show ?case by (simp add: uid_frame_refl)
next
  case (Cons m ms)
  from Cons.prems obtain n h1 where
    n: "nodesById g (ToString (case uids of [] \<Rightarrow> JUndefined | u # _ \<Rightarrow> u)) = Some n"
    and 1: "resolveAll (isNeededBy (nodes g ! n)) m h = Inr h1"
    and 2: "resolveDepsLoop g ms (tl uids) h1 = Inr h'"
    by (auto split: option.splits sum.splits)
  from n assms(1) have "n < length (nodes g)" by (auto simp: refs_ok_def)
  then have "nodes g ! n \<in> set (nodes g)" by simp
  with assms(2) have "\<forall>d \<in> set (isNeededBy (nodes g ! n)). dep_ok d"
    by (auto simp: resolvers_ok_def)
  from resolveAll_frame[OF this 1] Cons.IH[OF 2] show ?case by (rule uid_frame_trans)
qed

lemma settleInsertions_frame:
  assumes "refs_ok g" "resolvers_ok g"
  shows "\<forall>s \<in> set ss. pending_ok (st_promise s) \<Longrightarrow>
         settleInsertions g ss (h, db) = Inr (h', db') \<Longrightarrow> uid_frame h h'"
proof (induction ss arbitrary: h db)
  case Nil
  then show ?case by (simp add: uid_frame_refl)
next
  case (Cons s ss)
  from Cons.prems(2) obtain h1 db1 where p: "st_promise s (h, db) = Some (h1, db1)"
    by (auto split: option.splits)
  from Cons.prems(1) p have f1: "uid_frame h h1" by (auto simp: pending_ok_def)
  show ?case
  proof (cases "isJoinTableInsertion (st_insertion s)")
    case True
    with Cons.prems(2) p have "settleInsertions g ss (h1, db1) = Inr (h', db')" by simp
    from Cons.IH[OF _ this] Cons.prems(1) have "uid_frame h1 h'" by simp
    with f1 show ?thesis by (rule uid_frame_trans)
  next
    case False
    with Cons.prems(2) p obtain h2 where
      r: "resolveDepsForInsertion g (st_insertion s) (st_uids s) h1 = Inr h2"
      and t: "settleInsertions g ss (h2, db1) = Inr (h', db')"
      by (auto split: sum.splits)
    from r have "uid_frame h1 h2"
      unfolding resolveDepsForInsertion_def by (rule resolveDepsLoop_frame[OF assms])
    moreover from Cons.IH[OF _ t] Cons.prems(1) have "uid_frame h2 h'" by simp
    ultimately have "uid_frame h1 h'" by (rule uid_frame_trans)
    with f1 show ?thesis by (rule uid_frame_trans)
  qed
qed

section \<open>A round of the inserter\<close>

text \<open>The number of nodes that are not handled.\<close>

definition unhandledCount :: "graph \<Rightarrow> nat" where
  "unhandledCount g = length (filter (\<lambda>nd. \<not> handled nd) (nodes g))"

lemma filter_count_mono:
  "length xs = length ys \<Longrightarrow> \<forall>i < length xs. P (ys ! i) \<longrightarrow> Q (xs ! i) \<Longrightarrow>
     length (filter P ys) \<le> length (filter Q xs)"
proof (induction xs ys rule: list_induct2)
  case Nil
  then show ?case by simp
next
  case (Cons x xs y ys)
  have h: "P y \<longrightarrow> Q x" using Cons.prems by force
  have t: "\<forall>i < length xs. P (ys ! i) \<longrightarrow> Q (xs ! i)"
  proof (intro allI impI)
    fix i assume "i < length xs" "P (ys ! i)"
    then have "Suc i < length (x # xs)" "P ((y # ys) ! Suc i)" by simp_all
    with Cons.prems have "Q ((x # xs) ! Suc i)" by blast
    then show "Q (xs ! i)" by simp
  qed
  from Cons.IH[OF t] h show ?case by simp
qed

lemma filter_count_less:
  "length xs = length ys \<Longrightarrow> \<forall>i < length xs. P (ys ! i) \<longrightarrow> Q (xs ! i) \<Longrightarrow>
     \<exists>i < length xs. Q (xs ! i) \<and> \<not> P (ys ! i) \<Longrightarrow>
     length (filter P ys) < length (filter Q xs)"
proof (induction xs ys rule: list_induct2)
  case Nil
  then show ?case by simp
next
  case (Cons x xs y ys)
  have h: "P y \<longrightarrow> Q x" using Cons.prems(1) by force
  have t: "\<forall>i < length xs. P (ys ! i) \<longrightarrow> Q (xs ! i)"
  proof (intro allI impI)
    fix i assume "i < length xs" "P (ys ! i)"
    then have "Suc i < length (x # xs)" "P ((y # ys) ! Suc i)" by simp_all
    with Cons.prems(1) have "Q ((x # xs) ! Suc i)" by blast
    then show "Q (xs ! i)" by simp
  qed
  from Cons.prems(2) obtain i where i: "i < length (x # xs)" "Q ((x # xs) ! i)" "\<not> P ((y # ys) ! i)"
    by blast
  show ?case
  proof (cases i)
    case 0
    with i have "Q x" "\<not> P y" by simp_all
    with filter_count_mono[OF Cons.hyps t] show ?thesis by simp
  next
    case (Suc j)
    with i have "\<exists>j < length xs. Q (xs ! j) \<and> \<not> P (ys ! j)" by auto
    from Cons.IH[OF t this] h show ?thesis by simp
  qed
qed

lemma batch_lookups:
  assumes "ids_ok g h"
  shows "lookupNode g h ` set (batchModels (createBatch g))
           = Some ` {n. n < length (nodes g) \<and> eligible (nodes g ! n)}"
proof (intro set_eqI iffI)
  fix x assume "x \<in> lookupNode g h ` set (batchModels (createBatch g))"
  then obtain nd where nd: "nd \<in> set (nodes g)" "eligible nd" and x: "x = lookupNode g h (node_model nd)"
    unfolding set_createBatch_models by blast
  from nd(1) obtain n where n: "n < length (nodes g)" "nodes g ! n = nd"
    by (auto simp: in_set_conv_nth)
  from nd(2) have "\<not> handled nd" by (simp add: eligible_def)
  with assms n have "lookupNode g h (node_model nd) = Some n" by (auto simp: ids_ok_def)
  with x n nd(2) show "x \<in> Some ` {n. n < length (nodes g) \<and> eligible (nodes g ! n)}" by auto
next
  fix x assume "x \<in> Some ` {n. n < length (nodes g) \<and> eligible (nodes g ! n)}"
  then obtain n where n: "n < length (nodes g)" "eligible (nodes g ! n)" and x: "x = Some n" by blast
  from n(2) have "\<not> handled (nodes g ! n)" by (simp add: eligible_def)
  with assms n(1) have l: "lookupNode g h (node_model (nodes g ! n)) = Some n"
    by (auto simp: ids_ok_def)
  from n have "node_model (nodes g ! n) \<in> set (batchModels (createBatch g))"
    unfolding set_createBatch_models by auto
  with l x show "x \<in> lookupNode g h ` set (batchModels (createBatch g))" by force
qed

lemma mark_batch_succeeds:
  assumes "ids_ok g h"
  shows "\<exists>g1. markBatchHandled h g (createBatch g) = Inr g1"
proof -
  have "\<forall>m \<in> set (batchModels (createBatch g)). lookupNode g h m \<noteq> None"
  proof
    fix m assume "m \<in> set (batchModels (createBatch g))"
    then have "lookupNode g h m \<in> lookupNode g h ` set (batchModels (createBatch g))" by simp
    then show "lookupNode g h m \<noteq> None" unfolding batch_lookups[OF assms] by auto
  qed
  from markModelsHandled_succeeds[OF this] show ?thesis
    by (simp add: markBatchHandled_def batchModels_def)
qed

lemma mark_batch_result:
  assumes "ids_ok g h" "markBatchHandled h g (createBatch g) = Inr g1"
  shows "same_graph g g1"
    and "\<And>n. n < length (nodes g) \<Longrightarrow>
           handled (nodes g1 ! n) = (handled (nodes g ! n) \<or> eligible (nodes g ! n))"
proof -
  from assms(2) have m: "markModelsHandled h g (batchModels (createBatch g)) = Inr g1"
    by (simp add: markBatchHandled_def batchModels_def)
  note p = markModelsHandled_props[OF m]
  from p show "same_graph g g1" by blast
  show "handled (nodes g1 ! n) = (handled (nodes g ! n) \<or> eligible (nodes g ! n))"
    if "n < length (nodes g)" for n
  proof -
    from p that have "handled (nodes g1 ! n)
        = (handled (nodes g ! n) \<or> Some n \<in> lookupNode g h ` set (batchModels (createBatch g)))"
      by blast
    with that show ?thesis unfolding batch_lookups[OF assms(1)] by auto
  qed
qed

lemma unhandled_decreases:
  assumes "ids_ok g h" "createBatch g \<noteq> []" "markBatchHandled h g (createBatch g) = Inr g1"
  shows "unhandledCount g1 < unhandledCount g"
proof -
  note r = mark_batch_result[OF assms(1,3)]
  have l: "length (nodes g) = length (nodes g1)" using same_graph_length[OF r(1)] by simp
  from assms(2) obtain nd where "nd \<in> set (nodes g)" "eligible nd"
    by (auto simp: createBatch_empty_iff)
  then obtain n where n: "n < length (nodes g)" "eligible (nodes g ! n)"
    by (auto simp: in_set_conv_nth)
  have a: "\<forall>i < length (nodes g). \<not> handled (nodes g1 ! i) \<longrightarrow> \<not> handled (nodes g ! i)"
    using r(2) by simp
  have b: "\<exists>i < length (nodes g). \<not> handled (nodes g ! i) \<and> \<not> \<not> handled (nodes g1 ! i)"
    using n r(2)[OF n(1)] by (auto simp: eligible_def)
  from filter_count_less[OF l a b] show ?thesis by (simp add: unhandledCount_def)
qed

lemma round_inv:
  assumes "refs_ok g" "ids_ok g h" "resolvers_ok g" "inserter_ok inserter"
    and mk: "markBatchHandled h g (createBatch g) = Inr g1"
    and si: "startInsertions inserter (createBatch g) h = Inr (ss, h1)"
    and se: "settleInsertions g1 ss (h1, db) = Inr (h2, db2)"
  shows "refs_ok g1" "ids_ok g1 h2" "resolvers_ok g1"
proof -
  note r = mark_batch_result[OF assms(2) mk]
  note l = same_graph_length[OF r(1)]
  from r(1) have nb: "nodesById g1 = nodesById g" by (simp add: same_graph_def)
  show refs: "refs_ok g1" using assms(1) nb l by (simp add: refs_ok_def)
  show res: "resolvers_ok g1"
    unfolding resolvers_ok_def
  proof (intro ballI)
    fix nd d assume "nd \<in> set (nodes g1)" and d: "d \<in> set (isNeededBy nd)"
    then obtain n where n: "n < length (nodes g1)" "nodes g1 ! n = nd"
      by (auto simp: in_set_conv_nth)
    with l have n': "n < length (nodes g)" by simp
    from unmarked_fields(5)[OF same_graph_nth[OF r(1) n']] n
    have "isNeededBy nd = isNeededBy (nodes g ! n)" by simp
    with d n' assms(3) show "dep_ok d" by (auto simp: resolvers_ok_def)
  qed
  note s = startInsertions_result[OF si]
  have 1: "ids_ok g1 h1"
    unfolding ids_ok_def
  proof (intro allI impI)
    fix n assume n1: "n < length (nodes g1)" and u1: "\<not> handled (nodes g1 ! n)"
    from n1 l have n: "n < length (nodes g)" by simp
    from u1 r(2)[OF n] have u: "\<not> handled (nodes g ! n)" and ne: "\<not> eligible (nodes g ! n)"
      by simp_all
    from unmarked_fields(2)[OF same_graph_nth[OF r(1) n]]
    have mm: "node_model (nodes g1 ! n) = node_model (nodes g ! n)" .
    let ?m = "node_model (nodes g ! n)"
    from assms(2) n u have o: "isObj h ?m" and lk: "lookupNode g h ?m = Some n"
      by (simp_all add: ids_ok_def)
    have notin: "?m \<notin> set (batchModels (createBatch g))"
    proof
      assume "?m \<in> set (batchModels (createBatch g))"
      then have "lookupNode g h ?m \<in> lookupNode g h ` set (batchModels (createBatch g))" by simp
      with lk have "Some n \<in> Some ` {n. n < length (nodes g) \<and> eligible (nodes g ! n)}"
        unfolding batch_lookups[OF assms(2)] by simp
      with ne show False by auto
    qed
    from o obtain a ob where a: "?m = JRef a" "a < length h" "h ! a = Obj ob"
      unfolding isObj_cell by blast
    from s a notin have c: "h1 ! a = h ! a" by auto
    from s have len: "length h1 = length h" by blast
    from same_cell_model[OF o len] a c
    have o1: "isObj h1 ?m" and rp: "readProp h1 ?m uidProp = readProp h ?m uidProp" by auto
    from rp have "lookupNode g h1 ?m = lookupNode g h ?m" by (simp add: lookupNode_def)
    with lk lookupNode_same[OF r(1), of h1 ?m] have "lookupNode g1 h1 ?m = Some n" by simp
    with o1 mm show "isObj h1 (node_model (nodes g1 ! n)) \<and>
        lookupNode g1 h1 (node_model (nodes g1 ! n)) = Some n" by simp
  qed
  have "\<forall>s \<in> set ss. pending_ok (st_promise s)"
  proof
    fix x assume "x \<in> set ss"
    with s obtain ti h0 where "st_promise x = inserter ti h0" by blast
    with assms(4) show "pending_ok (st_promise x)" by (simp add: inserter_ok_def)
  qed
  from settleInsertions_frame[OF refs res this se] have "uid_frame h1 h2" .
  with 1 show "ids_ok g1 h2" by (rule ids_ok_frame)
qed

section \<open>The rounds end\<close>

text \<open>
  A bound on the rounds that are left: one round for every node that is not handled,
  one for the empty scan and one for the call that finds \<open>done\<close> set. \<open>finish\<close> is the
  outcome of \<open>_finalize\<close>.
\<close>

definition roundBound :: "inserterState \<Rightarrow> nat" where
  "roundBound st = (if gi_done st then 1 else unhandledCount (gi_graph st) + 2)"

definition finish :: "jsval \<Rightarrow> inserterState \<Rightarrow> 's \<Rightarrow> error + jsval \<times> heap \<times> 's" where
  "finish models st db =
     (case finalizeGraph (gi_graph st) (gi_store st) of
        Inl e \<Rightarrow> Inl e
      | Inr h \<Rightarrow> Inr (models, h, db))"

lemma nextBatch_done: "gi_done st \<Longrightarrow> nextBatch st = Inr (None, st)"
  by (simp add: nextBatch_def)

lemma nextBatch_empty:
  "\<not> gi_done st \<Longrightarrow> createBatch (gi_graph st) = [] \<Longrightarrow>
     nextBatch st =
       Inr (Some (fst (createManyToManyRelationJoinRowBatch (gi_graph st) (gi_store st))),
            st\<lparr>gi_done := True,
               gi_store := snd (createManyToManyRelationJoinRowBatch (gi_graph st) (gi_store st))\<rparr>)"
  by (simp add: nextBatch_def Let_def split: prod.splits)

lemma nextBatch_nonempty:
  "\<not> gi_done st \<Longrightarrow> createBatch (gi_graph st) \<noteq> [] \<Longrightarrow>
     markBatchHandled (gi_store st) (gi_graph st) (createBatch (gi_graph st)) = Inr g1 \<Longrightarrow>
     nextBatch st = Inr (Some (createBatch (gi_graph st)), st\<lparr>gi_graph := g1\<rparr>)"
  by (simp add: nextBatch_def Let_def)

lemma executeNextBatch_done:
  "gi_done st \<Longrightarrow> executeNextBatch (Suc fuel) inserter models st db = Some ([], finish models st db)"
  by (simp add: nextBatch_done finish_def split: sum.splits)

lemma executeNextBatch_step:
  assumes "nextBatch st = Inr (Some batch, st1)"
  shows "executeNextBatch (Suc fuel) inserter models st db =
     (case startInsertions inserter batch (gi_store st1) of
        Inl e \<Rightarrow> Some ([batch], Inl e)
      | Inr (started, h1) \<Rightarrow>
          (case settleInsertions (gi_graph st1) started (h1, db) of
             Inl e \<Rightarrow> Some ([batch], Inl e)
           | Inr (h2, db2) \<Rightarrow>
               (case executeNextBatch fuel inserter models (st1\<lparr>gi_store := h2\<rparr>) db2 of
                  None \<Rightarrow> None
                | Some (trace, outcome) \<Rightarrow> Some (batch # trace, outcome))))"
  using assms by simp


lemma executeNextBatch_fuel:
  "executeNextBatch fuel inserter models st db = Some r \<Longrightarrow> fuel \<le> fuel' \<Longrightarrow>
     executeNextBatch fuel' inserter models st db = Some r"
proof (induction fuel arbitrary: fuel' st db r)
  case 0
  then show ?case by simp
next
  case (Suc fuel)
  from Suc.prems(2) obtain f' where f': "fuel' = Suc f'" "fuel \<le> f'" by (cases fuel') simp_all
  show ?case
  proof (cases "nextBatch st")
    case (Inl e)
    with Suc.prems(1) f' show ?thesis by simp
  next
    case (Inr p)
    obtain b st1 where p: "p = (b, st1)" by (cases p)
    show ?thesis
    proof (cases b)
      case None
      with Inr p Suc.prems(1) f' show ?thesis by simp
    next
      case (Some batch)
      with Inr p have nb: "nextBatch st = Inr (Some batch, st1)" by simp
      note s1 = executeNextBatch_step[OF nb, of fuel inserter models db]
      note s2 = executeNextBatch_step[OF nb, of f' inserter models db]
      show ?thesis
      proof (cases "startInsertions inserter batch (gi_store st1)")
        case (Inl e)
        with s1 s2 Suc.prems(1) f' show ?thesis by (simp del: executeNextBatch.simps)
      next
        case si: (Inr u)
        obtain ss h1 where u: "u = (ss, h1)" by (cases u)
        show ?thesis
        proof (cases "settleInsertions (gi_graph st1) ss (h1, db)")
          case (Inl e)
          with s1 s2 si u Suc.prems(1) f' show ?thesis by (simp del: executeNextBatch.simps)
        next
          case se: (Inr q)
          obtain h2 db2 where q: "q = (h2, db2)" by (cases q)
          from s1 si u se q Suc.prems(1) obtain trace outcome where
            t: "executeNextBatch fuel inserter models (st1\<lparr>gi_store := h2\<rparr>) db2 = Some (trace, outcome)"
            and r: "r = (batch # trace, outcome)"
            by (auto simp del: executeNextBatch.simps split: option.splits)
          from Suc.IH[OF t f'(2)] s2 si u se q r f'(1) show ?thesis
            by (simp del: executeNextBatch.simps)
        qed
      qed
    qed
  qed
qed


section \<open>Termination of execute\<close>



fun assignIds :: "heap \<Rightarrow> jsval list \<Rightarrow> nat \<Rightarrow> heap" where
  "assignIds h [] n = h"
| "assignIds h (m # ms) n =
     (case writeProp h m ''id'' (JNum (int n)) of
        Inl e \<Rightarrow> h
      | Inr h' \<Rightarrow> assignIds h' ms (Suc n))"

definition insertRows :: "(obj list) insertCallback" where
  "insertRows ti h0 =
     (\<lambda>hs. Some (assignIds (fst hs) (ti_models ti) (Suc (length (snd hs))),
                  snd hs @ map (objOf h0) (ti_models ti)))"


lemma assignIds_frame: "uid_frame h (assignIds h ms n)"
proof (induction ms arbitrary: h n)
  case Nil
  then show ?case by (simp add: uid_frame_refl)
next
  case (Cons m ms)
  show ?case
  proof (cases "writeProp h m ''id'' (JNum (int n))")
    case (Inl e)
    then show ?thesis by (simp add: uid_frame_refl)
  next
    case (Inr h')
    have "''id'' \<noteq> uidProp" by (simp add: uidProp_def)
    from writeProp_frame[OF this Inr] Cons.IH[of h' "Suc n"] Inr show ?thesis
      by (auto intro: uid_frame_trans)
  qed
qed

lemma inserter_ok_insertRows: "inserter_ok insertRows"
  by (auto simp: inserter_ok_def pending_ok_def insertRows_def assignIds_frame)









section \<open>A graph that finds one node for two models\<close>















section \<open>Finalization: one reference\<close>

text \<open>
  What the loop over the keys of \<open>_finalize\<close> does to the model of the reference for one
  key, and the model of the reference after the loop and the \<open>$omit\<close>.
\<close>

definition copyStep :: "string list \<Rightarrow> obj \<Rightarrow> obj \<Rightarrow> string \<Rightarrow> obj" where
  "copyStep rels aob rob key =
     (if key \<notin> set rels \<and> \<not> isFunction (get_prop aob key)
      then set_prop rob key (get_prop aob key) else rob)"

definition finalObj :: "string list \<Rightarrow> obj \<Rightarrow> obj \<Rightarrow> obj" where
  "finalObj rels aob rob =
     delete_prop (delete_prop (foldl (copyStep rels aob) rob (obj_keys aob)) uidProp) uidRefProp"

lemma copyProps_obj:
  assumes "r \<noteq> b" "b < length h" "h ! b = Obj aob"
  shows "r < length h \<Longrightarrow> h ! r = Obj rob \<Longrightarrow>
         copyProps h rels (JRef b) (JRef r) keys
           = Inr (h[r := Obj (foldl (copyStep rels aob) rob keys)])"
  using assms(2,3)
proof (induction keys arbitrary: h rob)
  case Nil
  have "h[r := h ! r] = h" by (rule list_update_id)
  with Nil.prems show ?case by simp
next
  case (Cons key keys)
  have rd: "readProp h (JRef b) key = Inr (get_prop aob key)" using Cons.prems by simp
  show ?case
  proof (cases "key \<notin> set rels \<and> \<not> isFunction (get_prop aob key)")
    case True
    let ?h1 = "h[r := Obj (set_prop rob key (get_prop aob key))]"
    have w: "writeProp h (JRef r) key (get_prop aob key) = Inr ?h1" using Cons.prems by simp
    have 1: "r < length ?h1" "?h1 ! r = Obj (set_prop rob key (get_prop aob key))"
      "b < length ?h1" "?h1 ! b = Obj aob"
      using Cons.prems assms(1) by simp_all
    from Cons.IH[OF 1] rd w True show ?thesis
      by (simp add: copyStep_def del: readProp.simps writeProp.simps)
  next
    case False
    from Cons.IH[OF Cons.prems] rd False show ?thesis
      by (auto simp: copyStep_def simp del: readProp.simps writeProp.simps)
  qed
qed

lemma get_foldl_copyStep:
  "get_prop (foldl (copyStep rels aob) rob keys) k =
     (if k \<in> set keys \<and> k \<notin> set rels \<and> \<not> isFunction (get_prop aob k)
      then get_prop aob k else get_prop rob k)"
  by (induction keys arbitrary: rob) (auto simp: copyStep_def get_set_prop)

lemma has_prop_keys: "has_prop ob k \<longleftrightarrow> k \<in> set (obj_keys ob)"
  by (simp add: has_prop_def obj_keys_def map_of_eq_None_iff)

lemma uid_ref_distinct: "uidProp \<noteq> uidRefProp"
  by (simp add: uidProp_def uidRefProp_def)

lemma omitArray_uid_ref:
  "omitArray ob [uidProp, uidRefProp] = delete_prop (delete_prop ob uidProp) uidRefProp"
proof -
  have a: "omitArray ob [uidProp, uidRefProp] = omitArray (delete_prop ob uidProp) [uidRefProp]"
    by (simp add: startsWithDollar_def uidProp_def delete_prop_absent)
  have b: "omitArray ob' [uidRefProp] = delete_prop ob' uidRefProp" for ob'
    by (simp add: startsWithDollar_def uidRefProp_def delete_prop_absent)
  from a b show ?thesis by simp
qed

lemma finalObj_no_uid:
  "\<not> has_prop (finalObj rels aob rob) uidProp" "\<not> has_prop (finalObj rels aob rob) uidRefProp"
  by (simp_all add: finalObj_def has_delete_prop)

lemma finalObj_get:
  "k \<noteq> uidProp \<Longrightarrow> k \<noteq> uidRefProp \<Longrightarrow>
     get_prop (finalObj rels aob rob) k =
       (if has_prop aob k \<and> k \<notin> set rels \<and> \<not> isFunction (get_prop aob k)
        then get_prop aob k else get_prop rob k)"
  by (simp add: finalObj_def get_delete_prop get_foldl_copyStep has_prop_keys)

lemma finalizeNode_ref:
  assumes "node_model refNode = JRef r" "r < length h" "h ! r = Obj rob"
    and "truthy (get_prop rob uidRefProp)"
    and "nodesById g (ToString (get_prop rob uidRefProp)) = Some a"
    and "node_model (nodes g ! a) = JRef b" "b < length h" "h ! b = Obj aob" "r \<noteq> b"
  shows "finalizeNode g refNode h
           = Inr (h[r := Obj (finalObj (relationNames (node_modelClass (nodes g ! a))) aob rob)])"
proof -
  let ?rels = "relationNames (node_modelClass (nodes g ! a))"
  have rd: "readProp h (node_model refNode) uidRefProp = Inr (get_prop rob uidRefProp)"
    using assms(1-3) by simp
  have ks: "obj_keys (objOf h (node_model (nodes g ! a))) = obj_keys aob"
    using assms(6-8) by (simp add: objOf_def)
  note cp = copyProps_obj[OF assms(9,7,8) assms(2,3), of ?rels "obj_keys aob"]
  let ?h1 = "h[r := Obj (foldl (copyStep ?rels aob) rob (obj_keys aob))]"
  have om: "omitProps ?h1 (JRef r) [uidProp, uidRefProp]
      = Inr (h[r := Obj (finalObj ?rels aob rob)])"
    using assms(2) by (simp add: omitProps_def omitArray_uid_ref finalObj_def del: omitArray.simps)
  from rd assms(4,5) ks cp om assms(1,6) show ?thesis
    by (simp add: finalizeNode_def Let_def
        del: readProp.simps omitArray.simps copyProps.simps)
qed

lemma finalizeNode_plain:
  assumes "node_model nd = JRef r" "r < length h" "h ! r = Obj rob"
    and "\<not> truthy (get_prop rob uidRefProp)"
  shows "finalizeNode g nd h = Inr h"
  using assms by (simp add: finalizeNode_def)

section \<open>Finalization: all nodes\<close>

text \<open>
  A node is a reference when its model has a truthy \<open>#ref\<close>; the node referenced is the
  one found under that value; \<open>finalModel\<close> is the model that the node is to have after
  the pass. The pass is followed for graphs whose nodes have different models that are
  objects, and whose references name a node that is no reference itself.
\<close>

definition isRef :: "heap \<Rightarrow> node \<Rightarrow> bool" where
  "isRef h nd \<longleftrightarrow> truthy (get_prop (objOf h (node_model nd)) uidRefProp)"

definition actualOf :: "graph \<Rightarrow> heap \<Rightarrow> node \<Rightarrow> nat option" where
  "actualOf g h nd = nodesById g (ToString (get_prop (objOf h (node_model nd)) uidRefProp))"

definition finalModel :: "graph \<Rightarrow> heap \<Rightarrow> node \<Rightarrow> obj" where
  "finalModel g h nd =
     (if isRef h nd
      then (case actualOf g h nd of
              None \<Rightarrow> objOf h (node_model nd)
            | Some a \<Rightarrow>
                finalObj (relationNames (node_modelClass (nodes g ! a)))
                  (objOf h (node_model (nodes g ! a))) (objOf h (node_model nd)))
      else objOf h (node_model nd))"

definition final_ok :: "graph \<Rightarrow> heap \<Rightarrow> node list \<Rightarrow> bool" where
  "final_ok g h nds \<longleftrightarrow>
     distinct (map node_model nds) \<and>
     (\<forall>nd \<in> set nds.
        isObj h (node_model nd) \<and>
        (isRef h nd \<longrightarrow>
           (\<exists>a. actualOf g h nd = Some a \<and> isObj h (node_model (nodes g ! a)) \<and>
                \<not> isRef h (nodes g ! a))))"

lemma objOf_update:
  "objOf (h[r := Obj ob]) m = (if m = JRef r \<and> r < length h then ob else objOf h m)"
  by (cases m) (auto simp: objOf_def nth_list_update)

lemma isObj_update:
  assumes "isObj h m"
  shows "isObj (h[r := Obj ob]) m"
proof -
  from assms obtain a ob0 where a: "m = JRef a" "a < length h" "h ! a = Obj ob0"
    unfolding isObj_cell by blast
  then have "\<exists>ob'. h[r := Obj ob] ! a = Obj ob'" by (cases "a = r") simp_all
  with a show ?thesis unfolding isObj_cell by simp
qed

lemma isObj_objOf: "isObj h m \<Longrightarrow> \<exists>a. m = JRef a \<and> a < length h \<and> h ! a = Obj (objOf h m)"
  unfolding isObj_cell by (auto simp: objOf_def)

lemma finalizeNodes_result:
  "final_ok g h nds \<Longrightarrow>
     \<exists>h'. finalizeNodes g nds h = Inr h' \<and> length h' = length h \<and>
          (\<forall>nd \<in> set nds. objOf h' (node_model nd) = finalModel g h nd) \<and>
          (\<forall>c < length h. JRef c \<notin> node_model ` {nd \<in> set nds. isRef h nd} \<longrightarrow> h' ! c = h ! c)"
proof (induction nds arbitrary: h)
  case Nil
  then show ?case by simp
next
  case (Cons nd nds)
  from Cons.prems have dist: "node_model nd \<notin> node_model ` set nds"
    and dist': "distinct (map node_model nds)"
    and ob: "isObj h (node_model nd)"
    and rest: "\<forall>nd' \<in> set nds. isObj h (node_model nd') \<and>
        (isRef h nd' \<longrightarrow>
           (\<exists>a. actualOf g h nd' = Some a \<and> isObj h (node_model (nodes g ! a)) \<and>
                \<not> isRef h (nodes g ! a)))"
    by (simp_all add: final_ok_def)
  from isObj_objOf[OF ob] obtain r where r: "node_model nd = JRef r" "r < length h"
    "h ! r = Obj (objOf h (node_model nd))" by blast
  show ?case
  proof (cases "isRef h nd")
    case False
    with r have f: "finalizeNode g nd h = Inr h"
      by (intro finalizeNode_plain[OF r]) (simp add: isRef_def)
    have ok: "final_ok g h nds" using dist' rest by (simp add: final_ok_def)
    from Cons.IH[OF ok] obtain h' where h': "finalizeNodes g nds h = Inr h'"
      "length h' = length h"
      "\<forall>nd \<in> set nds. objOf h' (node_model nd) = finalModel g h nd"
      "\<forall>c < length h. JRef c \<notin> node_model ` {nd \<in> set nds. isRef h nd} \<longrightarrow> h' ! c = h ! c"
      by blast
    have "JRef r \<notin> node_model ` {nd \<in> set nds. isRef h nd}" using dist r by auto
    with h'(4) r have "h' ! r = h ! r" by blast
    with r h'(2) False have me: "objOf h' (node_model nd) = finalModel g h nd"
      by (simp add: objOf_def finalModel_def)
    have fr: "\<forall>c < length h. JRef c \<notin> node_model ` {x \<in> set (nd # nds). isRef h x} \<longrightarrow> h' ! c = h ! c"
      using h'(4) False by auto
    from f h' me fr show ?thesis by auto
  next
    case True
    from Cons.prems True obtain a where a: "actualOf g h nd = Some a"
      "isObj h (node_model (nodes g ! a))" "\<not> isRef h (nodes g ! a)"
      by (auto simp: final_ok_def)
    from isObj_objOf[OF a(2)] obtain b where b: "node_model (nodes g ! a) = JRef b" "b < length h"
      "h ! b = Obj (objOf h (node_model (nodes g ! a)))" by blast
    have rb: "r \<noteq> b"
    proof
      assume "r = b"
      with r b have "node_model nd = node_model (nodes g ! a)" by simp
      with True a(3) show False by (simp add: isRef_def)
    qed
    let ?fo = "finalObj (relationNames (node_modelClass (nodes g ! a)))
                 (objOf h (node_model (nodes g ! a))) (objOf h (node_model nd))"
    let ?h1 = "h[r := Obj ?fo]"
    have f: "finalizeNode g nd h = Inr ?h1"
      using True a(1) by (intro finalizeNode_ref[OF r _ _ b rb]) (simp_all add: isRef_def actualOf_def)
    have same: "objOf ?h1 m = objOf h m" if "m \<noteq> JRef r" for m
      using that by (simp add: objOf_update)
    have sameRef: "isRef ?h1 x = isRef h x" "actualOf g ?h1 x = actualOf g h x"
      if "node_model x \<noteq> JRef r" for x
      using same[OF that] by (simp_all add: isRef_def actualOf_def)
    have notRef: "\<not> isRef ?h1 x" if "\<not> isRef h x" for x
    proof (cases "node_model x = JRef r")
      case True
      then have "objOf ?h1 (node_model x) = ?fo" using r(2) by (simp add: objOf_update)
      moreover have "get_prop ?fo uidRefProp = JUndefined"
        using finalObj_no_uid(2)[of "relationNames (node_modelClass (nodes g ! a))"
            "objOf h (node_model (nodes g ! a))" "objOf h (node_model nd)"]
        by (simp add: has_prop_def get_prop_def)
      ultimately show ?thesis by (simp add: isRef_def)
    next
      case False
      with sameRef(1)[OF False] that show ?thesis by simp
    qed
    have ne: "node_model x \<noteq> JRef r" if "x \<in> set nds" for x
    proof
      assume "node_model x = JRef r"
      with r(1) that have "node_model nd \<in> node_model ` set nds" by (metis imageI)
      with dist show False by simp
    qed
    have ok: "final_ok g ?h1 nds"
      unfolding final_ok_def
    proof (intro conjI ballI impI)
      show "distinct (map node_model nds)" by (rule dist')
    next
      fix x assume x: "x \<in> set nds"
      with rest show "isObj ?h1 (node_model x)" by (simp add: isObj_update)
    next
      fix x assume x: "x \<in> set nds" and xr: "isRef ?h1 x"
      from sameRef[OF ne[OF x]] xr have "isRef h x" by simp
      with rest x obtain a' where a': "actualOf g h x = Some a'"
        "isObj h (node_model (nodes g ! a'))" "\<not> isRef h (nodes g ! a')" by blast
      from a' sameRef(2)[OF ne[OF x]] notRef[OF a'(3)] isObj_update[OF a'(2)]
      show "\<exists>a. actualOf g ?h1 x = Some a \<and> isObj ?h1 (node_model (nodes g ! a)) \<and>
                \<not> isRef ?h1 (nodes g ! a)" by auto
    qed
    from Cons.IH[OF ok] obtain h' where h': "finalizeNodes g nds ?h1 = Inr h'"
      "length h' = length ?h1"
      "\<forall>x \<in> set nds. objOf h' (node_model x) = finalModel g ?h1 x"
      "\<forall>c < length ?h1. JRef c \<notin> node_model ` {x \<in> set nds. isRef ?h1 x} \<longrightarrow> h' ! c = ?h1 ! c"
      by blast
    have 1: "finalizeNodes g (nd # nds) h = Inr h'" using f h'(1) by simp
    have 2: "length h' = length h" using h'(2) by simp
    have "JRef r \<notin> node_model ` {x \<in> set nds. isRef ?h1 x}"
    proof
      assume "JRef r \<in> node_model ` {x \<in> set nds. isRef ?h1 x}"
      then obtain x where "x \<in> set nds" "node_model x = JRef r" by auto
      with ne show False by blast
    qed
    with h'(4) r(2) have "h' ! r = ?h1 ! r" by simp
    with r(1,2) 2 True a(1) have me: "objOf h' (node_model nd) = finalModel g h nd"
      by (simp add: objOf_def finalModel_def)
    have others: "objOf h' (node_model x) = finalModel g h x" if x: "x \<in> set nds" for x
    proof -
      from h'(3) x have e: "objOf h' (node_model x) = finalModel g ?h1 x" by blast
      note sr = sameRef[OF ne[OF x]]
      show ?thesis
      proof (cases "isRef h x")
        case False
        with e sr same[OF ne[OF x]] show ?thesis by (simp add: finalModel_def)
      next
        case xr: True
        with rest x obtain a' where a': "actualOf g h x = Some a'"
          "\<not> isRef h (nodes g ! a')" by blast
        have "node_model (nodes g ! a') \<noteq> JRef r"
        proof
          assume "node_model (nodes g ! a') = JRef r"
          with r(1) have "node_model (nodes g ! a') = node_model nd" by simp
          with True a'(2) show False by (simp add: isRef_def)
        qed
        from same[OF this] same[OF ne[OF x]] e sr xr a'(1) show ?thesis
          by (simp add: finalModel_def)
      qed
    qed
    have 3: "\<forall>x \<in> set (nd # nds). objOf h' (node_model x) = finalModel g h x"
      using me others by simp
    have 4: "\<forall>c < length h. JRef c \<notin> node_model ` {x \<in> set (nd # nds). isRef h x} \<longrightarrow> h' ! c = h ! c"
    proof (intro allI impI)
      fix c assume c: "c < length h" and n: "JRef c \<notin> node_model ` {x \<in> set (nd # nds). isRef h x}"
      have cr: "c \<noteq> r"
      proof
        assume "c = r"
        with r(1) True have "JRef c \<in> node_model ` {x \<in> set (nd # nds). isRef h x}"
          by (intro image_eqI[of _ _ nd]) simp_all
        with n show False by simp
      qed
      have "JRef c \<notin> node_model ` {x \<in> set nds. isRef ?h1 x}"
      proof
        assume "JRef c \<in> node_model ` {x \<in> set nds. isRef ?h1 x}"
        then obtain x where x: "x \<in> set nds" "isRef ?h1 x" "node_model x = JRef c" by auto
        from sameRef(1)[OF ne[OF x(1)]] x(2) have "isRef h x" by simp
        with x(1,3) have "JRef c \<in> node_model ` {x \<in> set (nd # nds). isRef h x}"
          by (intro image_eqI[of _ _ x]) simp_all
        with n show False by simp
      qed
      with h'(4) c have "h' ! c = ?h1 ! c" by simp
      with cr show "h' ! c = h ! c" by simp
    qed
    from 1 2 3 4 show ?thesis by blast
  qed
qed

section \<open>A reference and the node that it names\<close>

text \<open>
  A film and a reference to it. The film has a declared relation \<open>actors\<close> and a
  function; the reference carries \<open>role\<close>. As \<open>DependencyGraph\<close> leaves it, the node of the
  reference is handled from the start.
\<close>

definition filmClass :: modelClass where
  "filmClass = \<lparr>tableName = ''Film'', idColumns = [''id''], relationNames = [''actors''],
     jsonAttributes = []\<rparr>"

definition filmNode :: "string \<Rightarrow> nat \<Rightarrow> bool \<Rightarrow> node" where
  "filmNode ident a isHandled =
     \<lparr>node_id = ident, node_model = JRef a, node_modelClass = filmClass, needs = [],
      isNeededBy = [], manyToManyConnections = [], handled = isHandled, numHandledNeeds = 0\<rparr>"

definition refGraph :: graph where
  "refGraph =
     \<lparr>nodes = [filmNode ''m'' 0 False, filmNode ''r'' 1 True],
      nodesById = [''m'' \<mapsto> 0, ''r'' \<mapsto> 1],
      inputNodesById = [''m'' \<mapsto> 0, ''r'' \<mapsto> 1]\<rparr>"

definition refStore :: heap where
  "refStore =
     [Obj [(''#id'', JStr ''m''), (''title'', JStr ''t''), (''actors'', JRef 3),
           (''toJSON'', JFun ''f'')],
      Obj [(''#id'', JStr ''r''), (''#ref'', JStr ''m''), (''role'', JStr ''lead'')],
      Arr [JRef 0, JRef 1],
      Arr []]"

definition finalStore :: heap where
  "finalStore =
     [Obj [(''title'', JStr ''t''), (''actors'', JRef 3), (''toJSON'', JFun ''f''),
           (''id'', JNum 1)],
      Obj [(''role'', JStr ''lead''), (''title'', JStr ''t''), (''id'', JNum 1)],
      Arr [JRef 0, JRef 1],
      Arr []]"

section \<open>The counters of handled needs\<close>



definition models_ok :: "graph \<Rightarrow> bool" where
  "models_ok g \<longleftrightarrow> distinct (map node_model (nodes g))"












section \<open>The order of the batches\<close>

text \<open>
  The models that a batch inserts for nodes of the graph: those of its table
  insertions that are no join table insertions.
\<close>

definition nodeModels :: "batch \<Rightarrow> jsval list" where
  "nodeModels batch =
     concat (map (\<lambda>kv. ti_models (snd kv))
               (filter (\<lambda>kv. \<not> isJoinTableInsertion (snd kv)) batch))"


lemma batchPut_all:
  assumes "\<forall>kv \<in> set batch. P (snd kv)" "P v"
  shows "\<forall>kv \<in> set (batchPut batch k v). P (snd kv)"
proof
  fix kv assume "kv \<in> set (batchPut batch k v)"
  then have "(fst kv, snd kv) = (k, v) \<or> (fst kv, snd kv) \<in> set batch"
    using batchPut_entries[of "fst kv" "snd kv" batch k v] by simp
  with assms show "P (snd kv)" by auto
qed

lemma addJoinRow_join:
  assumes "\<forall>kv \<in> set (fst bh). isJoinTableInsertion (snd kv)"
  shows "\<forall>kv \<in> set (fst (addJoinRow g nd conn bh)). isJoinTableInsertion (snd kv)"
proof -
  let ?found = "map_of (fst bh) (mm_joinTable (conn_relation conn))"
  let ?ti = "case ?found of
               None \<Rightarrow> newTableInsertion (mm_joinTableModelClass (conn_relation conn)) True
             | Some ti \<Rightarrow> ti"
  have j: "isJoinTableInsertion ?ti"
  proof (cases ?found)
    case None
    then show ?thesis by (simp add: newTableInsertion_def)
  next
    case (Some ti)
    then have "(mm_joinTable (conn_relation conn), ti) \<in> set (fst bh)" by (rule map_of_SomeD)
    with assms Some show ?thesis by auto
  qed
  obtain a h1 where al: "alloc (snd bh) (Obj (fromJson
      (case conn_refNode conn of
         None \<Rightarrow> mm_createJoinModel (conn_relation conn)
                   (map (get_prop (objOf (snd bh) (node_model nd))) (mm_ownerProp (conn_relation conn)))
                   (objOf (snd bh) (node_model (nodes g ! conn_node conn)))
       | Some r \<Rightarrow> copyExtras (objOf (snd bh) (node_model (nodes g ! r)))
                     (mm_joinTableExtras (conn_relation conn))
                     (mm_createJoinModel (conn_relation conn)
                        (map (get_prop (objOf (snd bh) (node_model nd))) (mm_ownerProp (conn_relation conn)))
                        (objOf (snd bh) (node_model (nodes g ! conn_node conn))))))) = (a, h1)"
    by (simp add: alloc_def)
  have "isJoinTableInsertion (?ti\<lparr>ti_models := ti_models ?ti @ [JRef a],
                                  isInputModel := isInputModel ?ti @ [False]\<rparr>)"
    using j by simp
  from batchPut_all[of "fst bh" isJoinTableInsertion, OF assms this] al
  show ?thesis by (simp add: addJoinRow_def Let_def)
qed

lemma foldl_conns_join:
  "\<forall>kv \<in> set (fst bh). isJoinTableInsertion (snd kv) \<Longrightarrow>
   \<forall>kv \<in> set (fst (foldl (\<lambda>bh' conn. addJoinRow g nd conn bh') bh conns)).
      isJoinTableInsertion (snd kv)"
proof (induction conns arbitrary: bh)
  case Nil
  then show ?case by simp
next
  case (Cons c conns)
  from Cons.prems have "\<forall>kv \<in> set (fst (addJoinRow g nd c bh)). isJoinTableInsertion (snd kv)"
    by (rule addJoinRow_join)
  from Cons.IH[OF this] show ?case by simp
qed

lemma foldl_nodes_join:
  "\<forall>kv \<in> set (fst bh). isJoinTableInsertion (snd kv) \<Longrightarrow>
   \<forall>kv \<in> set (fst (foldl (\<lambda>bh nd. foldl (\<lambda>bh' conn. addJoinRow g nd conn bh') bh
                                    (manyToManyConnections nd)) bh nds)).
      isJoinTableInsertion (snd kv)"
proof (induction nds arbitrary: bh)
  case Nil
  then show ?case by simp
next
  case (Cons nd nds)
  from Cons.prems have "\<forall>kv \<in> set (fst (foldl (\<lambda>bh' conn. addJoinRow g nd conn bh') bh
      (manyToManyConnections nd))). isJoinTableInsertion (snd kv)"
    by (rule foldl_conns_join)
  from Cons.IH[OF this] show ?case by simp
qed

lemma removeDuplicates_join [simp]:
  "isJoinTableInsertion (removeDuplicates h ti) = isJoinTableInsertion ti"
  by (simp add: removeDuplicates_def Let_def)

lemma nodeModels_join: "nodeModels (fst (createManyToManyRelationJoinRowBatch g h)) = []"
proof -
  let ?r = "foldl (\<lambda>bh nd. foldl (\<lambda>bh' conn. addJoinRow g nd conn bh') bh
                             (manyToManyConnections nd)) ([], h) (nodes g)"
  obtain b h1 where r: "?r = (b, h1)" by (cases ?r)
  have "\<forall>kv \<in> set (fst ?r). isJoinTableInsertion (snd kv)"
    by (rule foldl_nodes_join) simp
  with r have "\<forall>kv \<in> set b. isJoinTableInsertion (snd kv)" by simp
  then have "filter (\<lambda>kv. \<not> isJoinTableInsertion (snd kv))
      (map (\<lambda>kv. (fst kv, removeDuplicates h1 (snd kv))) b) = []"
    by (simp add: filter_empty_conv)
  moreover from r have "fst (createManyToManyRelationJoinRowBatch g h)
      = map (\<lambda>kv. (fst kv, removeDuplicates h1 (snd kv))) b"
    by (simp add: createManyToManyRelationJoinRowBatch_def)
  ultimately show ?thesis by (simp add: nodeModels_def)
qed

lemma nodeModels_createBatch: "nodeModels (createBatch g) = batchModels (createBatch g)"
proof -
  have "filter (\<lambda>kv. \<not> isJoinTableInsertion (snd kv)) (createBatch g) = createBatch g"
    using createBatch_not_join[of _ g] by (simp add: filter_id_conv)
  then show ?thesis by (simp add: nodeModels_def batchModels_def)
qed

lemma same_graph_maps:
  assumes "same_graph g g1"
  shows "map node_model (nodes g1) = map node_model (nodes g)"
    and "map needs (nodes g1) = map needs (nodes g)"
proof -
  from assms have u: "map unmarked (nodes g1) = map unmarked (nodes g)" by (simp add: same_graph_def)
  have "map node_model (nodes g') = map node_model (map unmarked (nodes g'))" for g'
    by (simp add: unmarked_def)
  with u show "map node_model (nodes g1) = map node_model (nodes g)" by metis
  have "map needs (nodes g') = map needs (map unmarked (nodes g'))" for g'
    by (simp add: unmarked_def)
  with u show "map needs (nodes g1) = map needs (nodes g)" by metis
qed






lemma distinct_batch:
  assumes "models_ok g"
  shows "distinct (nodeModels (createBatch g))"
proof -
  from assms have "distinct (map node_model (filter eligible (nodes g)))"
    by (simp add: models_ok_def distinct_map_filter)
  with mset_eq_imp_distinct_iff[OF createBatch_models[of g]] show ?thesis
    unfolding nodeModels_createBatch by simp
qed


























section \<open>Rows to tree: what the row loop keeps\<close>

text \<open>
  The row loop writes a property of an object only where the object has nothing truthy
  under the key, and it adds cells. So from one state of the loop to a later one the
  store \<open>keeps\<close> its entries: every object is still an object, and every property with a
  truthy value has that value.
\<close>

definition keeps :: "heap \<Rightarrow> heap \<Rightarrow> bool" where
  "keeps h h' \<longleftrightarrow>
     length h \<le> length h' \<and>
     (\<forall>a < length h. \<forall>ob. h ! a = Obj ob \<longrightarrow>
        (\<exists>ob'. h' ! a = Obj ob' \<and>
               (\<forall>k. truthy (get_prop ob k) \<longrightarrow> get_prop ob' k = get_prop ob k)))"

lemma keeps_refl: "keeps h h"
  by (simp add: keeps_def)

lemma keeps_trans:
  assumes "keeps h h1" "keeps h1 h2"
  shows "keeps h h2"
  unfolding keeps_def
proof (intro conjI allI impI)
  show "length h \<le> length h2" using assms by (simp add: keeps_def)
next
  fix a ob assume a: "a < length h" and o: "h ! a = Obj ob"
  from assms(1) a o obtain ob1 where 1: "h1 ! a = Obj ob1"
    "\<forall>k. truthy (get_prop ob k) \<longrightarrow> get_prop ob1 k = get_prop ob k"
    unfolding keeps_def by blast
  from assms(1) a have "a < length h1" by (simp add: keeps_def)
  with assms(2) 1(1) obtain ob2 where 2: "h2 ! a = Obj ob2"
    "\<forall>k. truthy (get_prop ob1 k) \<longrightarrow> get_prop ob2 k = get_prop ob1 k"
    unfolding keeps_def by blast
  have "\<forall>k. truthy (get_prop ob k) \<longrightarrow> get_prop ob2 k = get_prop ob k"
  proof (intro allI impI)
    fix k assume t: "truthy (get_prop ob k)"
    with 1(2) have e: "get_prop ob1 k = get_prop ob k" by blast
    with t 2(2) show "get_prop ob2 k = get_prop ob k" by simp
  qed
  with 2(1) show "\<exists>ob'. h2 ! a = Obj ob' \<and>
      (\<forall>k. truthy (get_prop ob k) \<longrightarrow> get_prop ob' k = get_prop ob k)" by blast
qed

lemma keeps_append: "keeps h (h @ cells)"
  by (simp add: keeps_def nth_append)

lemma keeps_write:
  assumes "readProp h r k = Inr old" "\<not> truthy old" "writeProp (h @ cells) r k v = Inr h'"
  shows "keeps h h'"
proof (cases r)
  case (JRef a)
  show ?thesis
  proof (cases "a < length (h @ cells)")
    case False
    with assms(3) JRef have "h' = h @ cells" by simp
    then show ?thesis by (simp add: keeps_append)
  next
    case True
    show ?thesis
    proof (cases "(h @ cells) ! a")
      case (Arr xs)
      with assms(3) JRef True have "h' = h @ cells" by simp
      then show ?thesis by (simp add: keeps_append)
    next
      case (Obj ob)
      with assms(3) JRef True have h': "h' = (h @ cells)[a := Obj (set_prop ob k v)]" by simp
      show ?thesis
        unfolding keeps_def
      proof (intro conjI allI impI)
        show "length h \<le> length h'" using h' by simp
      next
        fix c ob0 assume c: "c < length h" and o: "h ! c = Obj ob0"
        show "\<exists>ob'. h' ! c = Obj ob' \<and>
            (\<forall>k. truthy (get_prop ob0 k) \<longrightarrow> get_prop ob' k = get_prop ob0 k)"
        proof (cases "c = a")
          case False
          with c o h' show ?thesis by (simp add: nth_append)
        next
          case ca: True
          with c Obj o have ob: "ob0 = ob" by (simp add: nth_append)
          from ca c o assms(1) JRef have old: "old = get_prop ob0 k" by simp
          have "\<forall>k'. truthy (get_prop ob0 k') \<longrightarrow> get_prop (set_prop ob k v) k' = get_prop ob0 k'"
            using assms(2) old ob by (auto simp: get_set_prop)
          with ca c h' show ?thesis by simp
        qed
      qed
    qed
  qed
qed (use assms(3) in simp_all)

section \<open>Rows to tree: a new model\<close>

lemma parseDatabaseJson_ext:
  "parseDatabaseJson parse attrs h json = (j, h1) \<Longrightarrow> \<exists>cells. h1 = h @ cells"
proof (induction attrs arbitrary: h json)
  case Nil
  then show ?case by simp
next
  case (Cons attr attrs)
  show ?case
  proof (cases "get_prop json attr")
    case (JStr s)
    obtain parsed hp where t: "tryParseJson parse h s = (parsed, hp)" by (cases "tryParseJson parse h s")
    then obtain c1 where c1: "hp = h @ c1"
      by (auto simp: tryParseJson_def split: option.splits)
    from Cons.prems JStr t have "parseDatabaseJson parse attrs hp
        (if parsed \<noteq> JUndefined then set_prop json attr parsed else json) = (j, h1)" by simp
    from Cons.IH[OF this] c1 show ?thesis by auto
  qed (use Cons in auto)
qed

lemma fromDatabaseJson_result:
  assumes "fromDatabaseJson parse mc h json = (m, h')"
  shows "m = JRef (length h)" and "\<exists>ob cells. h' = h @ Obj ob # cells"
proof -
  obtain j h1 where p: "parseDatabaseJson parse (jsonAttributes mc) (h @ [Obj []]) json = (j, h1)"
    by (cases "parseDatabaseJson parse (jsonAttributes mc) (h @ [Obj []]) json")
  from parseDatabaseJson_ext[OF p] obtain cells where c: "h1 = (h @ [Obj []]) @ cells" by blast
  from assms p have m: "m = JRef (length h)"
    and h': "h' = h1[length h := Obj (foldl (\<lambda>model kv. set_prop model (fst kv) (snd kv)) [] j)]"
    by (simp_all add: fromDatabaseJson_def alloc_def)
  show "m = JRef (length h)" by (rule m)
  from h' c have "h' = h @ Obj (foldl (\<lambda>model kv. set_prop model (fst kv) (snd kv)) [] j) # cells"
    by (simp add: list_update_append)
  then show "\<exists>ob cells. h' = h @ Obj ob # cells" by blast
qed

lemma createModel_result:
  assumes "createModel parse h row pInfo k = Inr (m, h')"
  shows "m = JRef (length h)" and "\<exists>ob cells. h' = h @ Obj ob # cells"
proof -
  from assms obtain kis where "k (pi_encPath pInfo) = Some kis"
    and f: "fromDatabaseJson parse (pi_modelClass pInfo) h
        (foldl (\<lambda>js kInfo. set_prop js (ki_col kInfo) (get_prop row (ki_key kInfo))) [] kis) = (m, h')"
    by (auto simp: createModel_def split: option.splits)
  from fromDatabaseJson_result[OF f] show "m = JRef (length h)" "\<exists>ob cells. h' = h @ Obj ob # cells"
    by blast+
qed


section \<open>Rows to tree: the model of an identifier\<close>

lemma locateOrCreate_keeps:
  assumes "locateOrCreate parse k row pInfo h br ident = Inr (m, h')"
  shows "keeps h h'"
proof -
  from assms obtain found where g: "getModelFromBranch pInfo h br ident = Inr found"
    by (auto simp: locateOrCreate_def split: sum.splits)
  have "\<exists>key. getModelFromBranch pInfo h br ident = readProp h br key \<and>
      (\<forall>h2 v. setModelToBranch pInfo h2 br ident v = writeProp h2 br key v)"
  proof (cases "pi_oneToOne pInfo")
    case False
    then show ?thesis
      by (intro exI[of _ "ToString ident"]) (simp add: getModelFromBranch_def setModelToBranch_def)
  next
    case True
    show ?thesis
    proof (cases "pi_relation pInfo")
      case None
      with True g show ?thesis by (simp add: getModelFromBranch_def relName_def)
    next
      case (Some r)
      with True show ?thesis
        by (intro exI[of _ "rel_name r"])
          (simp add: getModelFromBranch_def setModelToBranch_def relName_def)
    qed
  qed
  then obtain key where k1: "getModelFromBranch pInfo h br ident = readProp h br key"
    and k2: "\<And>h2 v. setModelToBranch pInfo h2 br ident v = writeProp h2 br key v" by blast
  show ?thesis
  proof (cases "truthy found")
    case True
    with assms g have "h' = h" by (simp add: locateOrCreate_def)
    then show ?thesis by (simp add: keeps_refl)
  next
    case False
    with assms g obtain model h2 where c: "createModel parse h row pInfo k = Inr (model, h2)"
      and s: "setModelToBranch pInfo h2 br ident model = Inr h'"
      by (auto simp: locateOrCreate_def split: sum.splits)
    from createModel_result(2)[OF c] obtain ob cells where h2: "h2 = h @ Obj ob # cells" by blast
    from g k1 have r: "readProp h br key = Inr found" by simp
    from s k2 h2 have w: "writeProp (h @ Obj ob # cells) br key model = Inr h'" by simp
    from keeps_write[OF r False w] show ?thesis .
  qed
qed

lemma locateOrCreate_found:
  assumes "branchKey pInfo ident = Some key" "b < length h" "h ! b = Obj br"
    "truthy (get_prop br key)"
  shows "locateOrCreate parse k row pInfo h (JRef b) ident = Inr (get_prop br key, h)"
  using assms
  by (auto simp: locateOrCreate_def getModelFromBranch_def branchKey_def relName_def
      split: if_splits option.splits)

lemma locateOrCreate_stored:
  assumes key: "branchKey pInfo ident = Some key" and b: "b < length h" "h ! b = Obj br"
    and l: "locateOrCreate parse k row pInfo h (JRef b) ident = Inr (m, h')"
  shows "truthy m" and "b < length h'" and "\<exists>br'. h' ! b = Obj br' \<and> get_prop br' key = m"
    and "truthy (get_prop br key) \<Longrightarrow> m = get_prop br key \<and> h' = h"
    and "\<not> truthy (get_prop br key) \<Longrightarrow> m = JRef (length h) \<and> length h < length h'"
proof -
  have g: "getModelFromBranch pInfo h (JRef b) ident = Inr (get_prop br key)"
    using key b by (auto simp: getModelFromBranch_def branchKey_def relName_def
        split: if_splits option.splits)
  have sw: "setModelToBranch pInfo h2 (JRef b) ident v = writeProp h2 (JRef b) key v" for h2 v
    using key by (auto simp: setModelToBranch_def branchKey_def relName_def
        split: if_splits option.splits)
  have all: "truthy m \<and> b < length h' \<and> (\<exists>br'. h' ! b = Obj br' \<and> get_prop br' key = m) \<and>
      (truthy (get_prop br key) \<longrightarrow> m = get_prop br key \<and> h' = h) \<and>
      (\<not> truthy (get_prop br key) \<longrightarrow> m = JRef (length h) \<and> length h < length h')"
  proof (cases "truthy (get_prop br key)")
    case True
    from locateOrCreate_found[OF key b True, of parse k row] l
    have "m = get_prop br key" "h' = h" by simp_all
    with True b show ?thesis by simp
  next
    case False
    with l g obtain model h2 where c: "createModel parse h row pInfo k = Inr (model, h2)"
      and s: "setModelToBranch pInfo h2 (JRef b) ident model = Inr h'" and mm: "m = model"
      by (auto simp: locateOrCreate_def split: sum.splits)
    from createModel_result[OF c] obtain ob cells where mo: "model = JRef (length h)"
      and h2: "h2 = h @ Obj ob # cells" by blast
    from h2 b have b2: "b < length h2" "h2 ! b = Obj br" by (simp_all add: nth_append)
    with s sw have h': "h' = h2[b := Obj (set_prop br key model)]" by simp
    from h' b2 h2 mm mo False show ?thesis by (simp add: get_set_prop)
  qed
  from all show "truthy m" "b < length h'" "\<exists>br'. h' ! b = Obj br' \<and> get_prop br' key = m"
    "truthy (get_prop br key) \<Longrightarrow> m = get_prop br key \<and> h' = h"
    "\<not> truthy (get_prop br key) \<Longrightarrow> m = JRef (length h) \<and> length h < length h'"
    by blast+
qed


text \<open>
  The value under which the branch of a path is found: the model of the parent path on
  the stack, or, for the root, the tree. The branch is ready for a path when that value
  is an object of the store and what it holds under the name of the relation, if it is
  truthy, is an object of the store too.
\<close>

definition holder :: "pathInfo \<Rightarrow> treeState \<Rightarrow> jsval" where
  "holder pInfo st =
     (if pi_relation pInfo \<noteq> None then stackGet st (pi_encParentPath pInfo) else ts_curBranch st)"

definition branchReady :: "pathInfo \<Rightarrow> treeState \<Rightarrow> bool" where
  "branchReady pInfo st \<longleftrightarrow>
     isObj (ts_heap st) (holder pInfo st) \<and>
     (\<forall>v. pi_relation pInfo \<noteq> None \<and>
          getBranch pInfo (ts_heap st) (holder pInfo st) = Inr v \<and> truthy v \<longrightarrow>
          isObj (ts_heap st) v)"

lemma keeps_obj:
  assumes "keeps h h'" "a < length h" "h ! a = Obj ob"
  shows "a < length h' \<and> (\<exists>ob'. h' ! a = Obj ob')"
proof -
  from assms(1) have l: "length h \<le> length h'"
    and c: "\<forall>a < length h. \<forall>ob. h ! a = Obj ob \<longrightarrow>
             (\<exists>ob'. h' ! a = Obj ob' \<and> (\<forall>k. truthy (get_prop ob k) \<longrightarrow> get_prop ob' k = get_prop ob k))"
    by (simp_all add: keeps_def)
  from c assms(2,3) have "\<exists>ob'. h' ! a = Obj ob'" by blast
  with l assms(2) show ?thesis by simp
qed

lemma keeps_cell:
  assumes "keeps h h'" "a < length h" "h ! a = Obj ob" "truthy (get_prop ob k)"
  shows "a < length h' \<and> (\<exists>ob'. h' ! a = Obj ob' \<and> get_prop ob' k = get_prop ob k)"
proof -
  from assms(1) have l: "length h \<le> length h'"
    and c: "\<forall>a < length h. \<forall>ob. h ! a = Obj ob \<longrightarrow>
             (\<exists>ob'. h' ! a = Obj ob' \<and> (\<forall>k. truthy (get_prop ob k) \<longrightarrow> get_prop ob' k = get_prop ob k))"
    by (simp_all add: keeps_def)
  from c assms(2,3) obtain ob' where "h' ! a = Obj ob'"
    "\<forall>k. truthy (get_prop ob k) \<longrightarrow> get_prop ob' k = get_prop ob k" by blast
  with assms(4) have "h' ! a = Obj ob' \<and> get_prop ob' k = get_prop ob k" by blast
  with l assms(2) show ?thesis by auto
qed

lemma keeps_isObj: "keeps h h' \<Longrightarrow> isObj h v \<Longrightarrow> isObj h' v"
  unfolding isObj_cell using keeps_obj by blast

lemma resolveBranch_keeps:
  assumes "resolveBranch pInfo st = Inr (br, h1)"
  shows "keeps (ts_heap st) h1"
proof (cases "pi_relation pInfo")
  case None
  with assms show ?thesis by (simp add: resolveBranch_def keeps_refl)
next
  case (Some r)
  let ?P = "stackGet st (pi_encParentPath pInfo)"
  from assms Some obtain v where g: "getBranch pInfo (ts_heap st) ?P = Inr v"
    by (auto simp: resolveBranch_def Let_def split: sum.splits)
  show ?thesis
  proof (cases "truthy v")
    case True
    with assms Some g show ?thesis by (simp add: resolveBranch_def keeps_refl)
  next
    case False
    with assms Some g have c: "createBranch pInfo (ts_heap st) ?P = Inr (br, h1)"
      by (simp add: resolveBranch_def)
    show ?thesis
    proof (cases "pi_oneToOne pInfo")
      case True
      with c show ?thesis by (simp add: createBranch_def keeps_refl)
    next
      case o: False
      from g o Some have r: "readProp (ts_heap st) ?P (rel_name r) = Inr v"
        by (simp add: getBranch_def relName_def)
      from c o Some have w: "writeProp (ts_heap st @ [Obj []]) ?P (rel_name r)
          (JRef (length (ts_heap st))) = Inr h1"
        by (auto simp: createBranch_def relName_def alloc_def split: sum.splits)
      from keeps_write[OF r False w] show ?thesis .
    qed
  qed
qed

lemma resolveBranch_obj:
  assumes "resolveBranch pInfo st = Inr (br, h1)" "branchReady pInfo st"
  shows "isObj h1 br"
proof (cases "pi_relation pInfo")
  case None
  with assms show ?thesis by (simp add: resolveBranch_def branchReady_def holder_def)
next
  case (Some r)
  let ?P = "stackGet st (pi_encParentPath pInfo)"
  from assms(2) Some have po: "isObj (ts_heap st) ?P"
    and fo: "\<And>v. getBranch pInfo (ts_heap st) ?P = Inr v \<Longrightarrow> truthy v \<Longrightarrow> isObj (ts_heap st) v"
    by (simp_all add: branchReady_def holder_def)
  from assms(1) Some obtain v where g: "getBranch pInfo (ts_heap st) ?P = Inr v"
    by (auto simp: resolveBranch_def Let_def split: sum.splits)
  show ?thesis
  proof (cases "truthy v")
    case True
    with assms(1) Some g have "br = v" "h1 = ts_heap st" by (simp_all add: resolveBranch_def)
    with fo[OF g True] show ?thesis by simp
  next
    case False
    with assms(1) Some g have c: "createBranch pInfo (ts_heap st) ?P = Inr (br, h1)"
      by (simp add: resolveBranch_def)
    show ?thesis
    proof (cases "pi_oneToOne pInfo")
      case True
      with c po show ?thesis by (simp add: createBranch_def)
    next
      case o: False
      from po obtain p ob where p: "?P = JRef p" "p < length (ts_heap st)" "ts_heap st ! p = Obj ob"
        unfolding isObj_cell by blast
      from c o Some p have "br = JRef (length (ts_heap st))"
        and "h1 = (ts_heap st @ [Obj []])[p := Obj (set_prop ob (rel_name r) (JRef (length (ts_heap st))))]"
        by (auto simp: createBranch_def relName_def alloc_def nth_append)
      with p(2) show ?thesis unfolding isObj_cell by (simp add: nth_append)
    qed
  qed
qed


lemma resolveBranch_again:
  assumes first: "resolveBranch pInfo st = Inr (br, h1)" and ready: "branchReady pInfo st"
    and later: "keeps h1 (ts_heap st2)" and same: "holder pInfo st2 = holder pInfo st"
  shows "resolveBranch pInfo st2 = Inr (br, ts_heap st2)"
proof (cases "pi_relation pInfo")
  case None
  with first same show ?thesis by (simp add: resolveBranch_def holder_def)
next
  case (Some r)
  let ?P = "stackGet st (pi_encParentPath pInfo)"
  from same Some have P2: "stackGet st2 (pi_encParentPath pInfo) = ?P" by (simp add: holder_def)
  from ready Some obtain p ob where p: "?P = JRef p" "p < length (ts_heap st)" "ts_heap st ! p = Obj ob"
    unfolding branchReady_def holder_def isObj_cell by auto
  show ?thesis
  proof (cases "pi_oneToOne pInfo")
    case True
    with first Some p have "br = ?P" by (simp add: resolveBranch_def getBranch_def)
    with True Some P2 p(1) show ?thesis by (simp add: resolveBranch_def getBranch_def)
  next
    case o: False
    have stored: "\<exists>ob1. h1 ! p = Obj ob1 \<and> get_prop ob1 (rel_name r) = br \<and> truthy br \<and> p < length h1"
    proof (cases "truthy (get_prop ob (rel_name r))")
      case True
      with first Some o p have "br = get_prop ob (rel_name r)" "h1 = ts_heap st"
        by (simp_all add: resolveBranch_def getBranch_def relName_def)
      with True p show ?thesis by simp
    next
      case False
      with first Some o p have "br = JRef (length (ts_heap st))"
        and "h1 = (ts_heap st @ [Obj []])[p := Obj (set_prop ob (rel_name r) (JRef (length (ts_heap st))))]"
        by (auto simp: resolveBranch_def getBranch_def relName_def createBranch_def alloc_def
            nth_append)
      with p(2) show ?thesis by (simp add: get_set_prop)
    qed
    then obtain ob1 where o1: "h1 ! p = Obj ob1" "get_prop ob1 (rel_name r) = br" "truthy br"
      "p < length h1" by blast
    from o1(2,3) have "truthy (get_prop ob1 (rel_name r))" by simp
    from keeps_cell[OF later o1(4,1) this] o1(2)
    obtain ob2 where o2: "ts_heap st2 ! p = Obj ob2" "get_prop ob2 (rel_name r) = br"
      and l2: "p < length (ts_heap st2)" by auto
    from o2 l2 o1(3) Some o P2 p(1) show ?thesis
      by (simp add: resolveBranch_def getBranch_def relName_def)
  qed
qed

lemma pathStep_keeps:
  assumes "pathStep parse k row pInfo st = Inr st1"
  shows "keeps (ts_heap st) (ts_heap st1)"
proof (cases "truthy (pi_idGetter pInfo row)")
  case False
  with assms show ?thesis by (simp add: pathStep_def keeps_refl)
next
  case True
  with assms obtain br h1 m h4 where r: "resolveBranch pInfo st = Inr (br, h1)"
    and l: "locateOrCreate parse k row pInfo h1 br (pi_idGetter pInfo row) = Inr (m, h4)"
    and s: "ts_heap st1 = h4"
    by (auto simp: pathStep_def Let_def split: sum.splits)
  from keeps_trans[OF resolveBranch_keeps[OF r] locateOrCreate_keeps[OF l]] s show ?thesis by simp
qed

lemma pathLoop_keeps:
  "pathLoop parse k row ps st = Inr st1 \<Longrightarrow> keeps (ts_heap st) (ts_heap st1)"
proof (induction ps arbitrary: st)
  case Nil
  then show ?case by (simp add: keeps_refl)
next
  case (Cons p ps)
  from Cons.prems obtain sm where a: "pathStep parse k row p st = Inr sm"
    and b: "pathLoop parse k row ps sm = Inr st1" by (auto split: sum.splits)
  from keeps_trans[OF pathStep_keeps[OF a] Cons.IH[OF b]] show ?case .
qed

lemma rowLoop_keeps:
  "rowLoop parse k t ps rows st = Inr st1 \<Longrightarrow> keeps (ts_heap st) (ts_heap st1)"
proof (induction rows arbitrary: st)
  case Nil
  then show ?case by (simp add: keeps_refl)
next
  case (Cons row rows)
  from Cons.prems obtain sm where a: "pathLoop parse k row ps (st\<lparr>ts_curBranch := t\<rparr>) = Inr sm"
    and b: "rowLoop parse k t ps rows sm = Inr st1" by (auto split: sum.splits)
  from pathLoop_keeps[OF a] have "keeps (ts_heap st) (ts_heap sm)" by simp
  from keeps_trans[OF this Cons.IH[OF b]] show ?case .
qed

lemma pathStep_again:
  assumes first: "pathStep parse k row pInfo st = Inr st1"
    and id1: "truthy (pi_idGetter pInfo row)"
    and ready: "branchReady pInfo st"
    and key: "branchKey pInfo (pi_idGetter pInfo row) = Some key"
    and later: "keeps (ts_heap st1) (ts_heap st2)"
    and same: "holder pInfo st2 = holder pInfo st"
    and id2: "truthy (pi_idGetter pInfo row')"
    and key2: "branchKey pInfo (pi_idGetter pInfo row') = Some key"
  shows "pathStep parse k row' pInfo st2 =
           Inr (st2\<lparr>ts_stack := (ts_stack st2)(pi_encPath pInfo := ts_stack st1 (pi_encPath pInfo)),
                    ts_curBranch := ts_curBranch st1\<rparr>)"
    and "\<exists>b br m. ts_curBranch st1 = JRef b \<and> b < length (ts_heap st1) \<and>
           ts_heap st1 ! b = Obj br \<and> get_prop br key = m \<and> truthy m \<and>
           ts_stack st1 (pi_encPath pInfo) = Some m"
proof -
  from first id1 obtain br h1 m h4 where r: "resolveBranch pInfo st = Inr (br, h1)"
    and l: "locateOrCreate parse k row pInfo h1 br (pi_idGetter pInfo row) = Inr (m, h4)"
    and s: "st1 = \<lparr>ts_heap = h4, ts_stack = (ts_stack st)(pi_encPath pInfo \<mapsto> m), ts_curBranch = br\<rparr>"
    by (auto simp: pathStep_def Let_def split: sum.splits)
  from resolveBranch_obj[OF r ready] obtain b bo where b: "br = JRef b" "b < length h1" "h1 ! b = Obj bo"
    unfolding isObj_cell by blast
  note st = locateOrCreate_stored[OF key b(2,3) l[unfolded b(1)]]
  from st(3) obtain br4 where b4: "h4 ! b = Obj br4" "get_prop br4 key = m" by blast
  show "\<exists>b br m. ts_curBranch st1 = JRef b \<and> b < length (ts_heap st1) \<and>
           ts_heap st1 ! b = Obj br \<and> get_prop br key = m \<and> truthy m \<and>
           ts_stack st1 (pi_encPath pInfo) = Some m"
    using s b(1) st(1,2) b4 by simp
  from later s have k42: "keeps h4 (ts_heap st2)" by simp
  from keeps_trans[OF locateOrCreate_keeps[OF l] k42] have k12: "keeps h1 (ts_heap st2)" .
  from resolveBranch_again[OF r ready k12 same]
  have r2: "resolveBranch pInfo st2 = Inr (br, ts_heap st2)" .
  from b4(2) st(1) have "truthy (get_prop br4 key)" by simp
  from keeps_cell[OF k42 st(2) b4(1) this] b4(2)
  obtain br2 where b2: "ts_heap st2 ! b = Obj br2" "get_prop br2 key = m"
    and l2: "b < length (ts_heap st2)" by auto
  from locateOrCreate_found[OF key2 l2 b2(1), of parse k row'] b2(2) st(1)
  have f2: "locateOrCreate parse k row' pInfo (ts_heap st2) (JRef b) (pi_idGetter pInfo row')
      = Inr (m, ts_heap st2)" by simp
  from r2 f2 id2 b(1) s show "pathStep parse k row' pInfo st2 =
           Inr (st2\<lparr>ts_stack := (ts_stack st2)(pi_encPath pInfo := ts_stack st1 (pi_encPath pInfo)),
                    ts_curBranch := ts_curBranch st1\<rparr>)"
    by (simp add: pathStep_def Let_def)
qed


lemma pathLoop_append:
  "pathLoop parse k row (ps @ qs) st =
     (case pathLoop parse k row ps st of Inl e \<Rightarrow> Inl e | Inr s \<Rightarrow> pathLoop parse k row qs s)"
  by (induction ps arbitrary: st) (auto split: sum.splits)

lemma rowLoop_append:
  "rowLoop parse k t ps (rows @ rows') st =
     (case rowLoop parse k t ps rows st of Inl e \<Rightarrow> Inl e | Inr s \<Rightarrow> rowLoop parse k t ps rows' s)"
  by (induction rows arbitrary: st) (auto split: sum.splits)

lemma pathStep_key:
  assumes "pathStep parse k row pInfo st = Inr st1" "truthy (pi_idGetter pInfo row)"
  shows "\<exists>key. branchKey pInfo (pi_idGetter pInfo row) = Some key"
proof (cases "pi_oneToOne pInfo \<and> pi_relation pInfo = None")
  case False
  then show ?thesis by (auto simp: branchKey_def)
next
  case True
  from assms obtain br h1 m h4
    where "locateOrCreate parse k row pInfo h1 br (pi_idGetter pInfo row) = Inr (m, h4)"
    by (auto simp: pathStep_def Let_def split: sum.splits)
  with True show ?thesis
    by (simp add: locateOrCreate_def getModelFromBranch_def relName_def)
qed

text \<open>
  Claim C6, as the code has it. A row \<open>row\<close> is processed: the paths \<open>ps\<close> before the
  path, the path itself, whose identifier is present and whose branch is ready, and the
  paths \<open>qs\<close> after it. Then any rows \<open>mid\<close> are processed, and of a later row \<open>row'\<close> the
  paths before the path. If the path finds the same parent as in \<open>row\<close> and the
  identifier of \<open>row'\<close> is present, and either the path is one-to-one or the two
  identifiers give the same property key, then the branch still holds the model of \<open>row\<close>:
  under the identifier, or for a one-to-one path under the name of the relation. The
  step of the path for \<open>row'\<close> takes that model, puts it on the stack and leaves the
  store as it is: no object is created and no column of \<open>row'\<close> is read into the model.
  The row loop over \<open>row\<close>, \<open>mid\<close>, \<open>row'\<close> and any further rows goes on from there.
\<close>

theorem model_keyed_by_identifier:
  assumes before1: "pathLoop parse k row ps (s0\<lparr>ts_curBranch := t\<rparr>) = Inr st"
    and first: "pathStep parse k row pInfo st = Inr st1"
    and id1: "truthy (pi_idGetter pInfo row)"
    and ready: "branchReady pInfo st"
    and rest: "pathLoop parse k row qs st1 = Inr sa"
    and between: "rowLoop parse k t (ps @ pInfo # qs) mid sa = Inr sb"
    and before2: "pathLoop parse k row' ps (sb\<lparr>ts_curBranch := t\<rparr>) = Inr st2"
    and parent: "holder pInfo st2 = holder pInfo st"
    and id2: "truthy (pi_idGetter pInfo row')"
    and sameId: "pi_oneToOne pInfo \<or>
                 ToString (pi_idGetter pInfo row') = ToString (pi_idGetter pInfo row)"
  shows "\<exists>b br m.
           ts_curBranch st1 = JRef b \<and> ts_stack st1 (pi_encPath pInfo) = Some m \<and> truthy m \<and>
           b < length (ts_heap st2) \<and> ts_heap st2 ! b = Obj br \<and>
           (if pi_oneToOne pInfo
            then \<exists>r. pi_relation pInfo = Some r \<and> get_prop br (rel_name r) = m
            else get_prop br (ToString (pi_idGetter pInfo row)) = m) \<and>
           pathStep parse k row' pInfo st2 =
             Inr (st2\<lparr>ts_stack := (ts_stack st2)(pi_encPath pInfo \<mapsto> m), ts_curBranch := JRef b\<rparr>) \<and>
           rowLoop parse k t (ps @ pInfo # qs) (row # mid @ row' # others) s0 =
             (case pathLoop parse k row' qs
                     (st2\<lparr>ts_stack := (ts_stack st2)(pi_encPath pInfo \<mapsto> m), ts_curBranch := JRef b\<rparr>) of
                Inl e \<Rightarrow> Inl e
              | Inr s \<Rightarrow> rowLoop parse k t (ps @ pInfo # qs) others s)"
proof -
  from pathStep_key[OF first id1] obtain key
    where key: "branchKey pInfo (pi_idGetter pInfo row) = Some key" by blast
  from sameId key have key2: "branchKey pInfo (pi_idGetter pInfo row') = Some key"
    by (auto simp: branchKey_def)
  from keeps_trans[OF pathLoop_keeps[OF rest] rowLoop_keeps[OF between]]
  have "keeps (ts_heap st1) (ts_heap sb)" .
  moreover from pathLoop_keeps[OF before2] have "keeps (ts_heap sb) (ts_heap st2)" by simp
  ultimately have later: "keeps (ts_heap st1) (ts_heap st2)" by (rule keeps_trans)
  note again = pathStep_again[OF first id1 ready key later parent id2 key2]
  from again(2) obtain b br1 m where b: "ts_curBranch st1 = JRef b" "b < length (ts_heap st1)"
    "ts_heap st1 ! b = Obj br1" "get_prop br1 key = m" "truthy m"
    "ts_stack st1 (pi_encPath pInfo) = Some m" by blast
  from b(4,5) have "truthy (get_prop br1 key)" by simp
  from keeps_cell[OF later b(2,3) this] b(4)
  obtain br where br: "b < length (ts_heap st2)" "ts_heap st2 ! b = Obj br" "get_prop br key = m"
    by auto
  have keyed: "if pi_oneToOne pInfo
            then \<exists>r. pi_relation pInfo = Some r \<and> get_prop br (rel_name r) = m
            else get_prop br (ToString (pi_idGetter pInfo row)) = m"
    using key br(3) by (auto simp: branchKey_def split: option.splits)
  let ?s = "st2\<lparr>ts_stack := (ts_stack st2)(pi_encPath pInfo \<mapsto> m), ts_curBranch := JRef b\<rparr>"
  from again(1) b(1,6) have step: "pathStep parse k row' pInfo st2 = Inr ?s" by simp
  from before1 first rest
  have r1: "pathLoop parse k row (ps @ pInfo # qs) (s0\<lparr>ts_curBranch := t\<rparr>) = Inr sa"
    by (simp add: pathLoop_append)
  from before2 step
  have r2: "pathLoop parse k row' (ps @ pInfo # qs) (sb\<lparr>ts_curBranch := t\<rparr>)
      = pathLoop parse k row' qs ?s"
    by (simp add: pathLoop_append)
  from r1 between r2
  have loop: "rowLoop parse k t (ps @ pInfo # qs) (row # mid @ row' # others) s0 =
      (case pathLoop parse k row' qs ?s of
         Inl e \<Rightarrow> Inl e
       | Inr s \<Rightarrow> rowLoop parse k t (ps @ pInfo # qs) others s)"
    by (simp add: rowLoop_append)
  from b(1,6,5) br(1,2) keyed step loop show ?thesis by blast
qed


text \<open>
  The scenario of the specification, with the row of the other child between the two rows
  of child 5. \<open>childrenKeys\<close> is what \<open>createKeyInfo\<close> gives for these rows; the states
  are those of the row loop after the root path of the first row, after its child path,
  after the row of child 6, and after the root path of the later row of child 5.
\<close>

definition childrenKeys :: "string \<Rightarrow> keyInfo list option" where
  "childrenKeys = groupByPath
     [\<lparr>ki_encPath = '''', ki_key = ''id'', ki_col = ''id''\<rparr>,
      \<lparr>ki_encPath = '''', ki_key = ''name'', ki_col = ''name''\<rparr>,
      \<lparr>ki_encPath = ''children'', ki_key = ''children:id'', ki_col = ''id''\<rparr>,
      \<lparr>ki_encPath = ''children'', ki_key = ''children:name'', ki_col = ''name''\<rparr>]"

definition treeStart :: treeState where
  "treeStart = \<lparr>ts_heap = [Obj []], ts_stack = Map.empty, ts_curBranch = JRef 0\<rparr>"

definition afterRoot1 :: treeState where
  "afterRoot1 = \<lparr>ts_heap = [Obj [(''id:1'', JRef 1)], Obj [(''id'', JNum 1), (''name'', JStr ''a'')]],
                 ts_stack = [''''  \<mapsto> JRef 1], ts_curBranch = JRef 0\<rparr>"

definition afterChild5 :: treeState where
  "afterChild5 = \<lparr>ts_heap = heapAfterRow1,
                  ts_stack = ['''' \<mapsto> JRef 1, ''children'' \<mapsto> JRef 3], ts_curBranch = JRef 2\<rparr>"

definition heapAfterChild6 :: heap where
  "heapAfterChild6 =
     [Obj [(''id:1'', JRef 1)],
      Obj [(''id'', JNum 1), (''name'', JStr ''a''), (''children'', JRef 2)],
      Obj [(''id:5'', JRef 3), (''id:6'', JRef 4)],
      Obj [(''id'', JNum 5), (''name'', JStr ''b'')],
      Obj [(''id'', JNum 6), (''name'', JStr ''c'')]]"

definition afterChild6 :: treeState where
  "afterChild6 = \<lparr>ts_heap = heapAfterChild6,
                  ts_stack = ['''' \<mapsto> JRef 1, ''children'' \<mapsto> JRef 4], ts_curBranch = JRef 2\<rparr>"

definition afterRoot3 :: treeState where
  "afterRoot3 = \<lparr>ts_heap = heapAfterChild6,
                 ts_stack = ['''' \<mapsto> JRef 1, ''children'' \<mapsto> JRef 4], ts_curBranch = JRef 0\<rparr>"

lemma childrenInfo_fields:
  "pi_encPath rootInfo = ''''" "pi_encPath childInfo = ''children''"
  "pi_relation rootInfo = None" "pi_relation childInfo = Some childrenRel"
  "pi_encParentPath childInfo = Some ''''" "\<not> pi_oneToOne childInfo"
  by (simp_all add: rootInfo_def childInfo_def)

lemma rows3_ids:
  "pi_idGetter rootInfo (rows3 ! 0) = JStr ''id:1''"
  "pi_idGetter rootInfo (rows3 ! 1) = JStr ''id:1''"
  "pi_idGetter rootInfo (rows3 ! 2) = JStr ''id:1''"
  "pi_idGetter childInfo (rows3 ! 0) = JStr ''id:5''"
  "pi_idGetter childInfo (rows3 ! 1) = JStr ''id:5''"
  "pi_idGetter childInfo (rows3 ! 2) = JStr ''id:6''"
  by code_simp+

lemma pathStep_eval:
  assumes "pi_idGetter pInfo row = ident" "truthy ident"
    "resolveBranch pInfo st = Inr (br, h1)"
    "locateOrCreate parse k row pInfo h1 br ident = Inr (m, h4)"
  shows "pathStep parse k row pInfo st =
           Inr \<lparr>ts_heap = h4, ts_stack = (ts_stack st)(pi_encPath pInfo \<mapsto> m), ts_curBranch = br\<rparr>"
  using assms by (simp add: pathStep_def)

lemma rows3_root1:
  "pathStep neverParsed childrenKeys (rows3 ! 0) rootInfo treeStart = Inr afterRoot1"
proof -
  have r: "resolveBranch rootInfo treeStart = Inr (JRef 0, [Obj []])" by code_simp
  have l: "locateOrCreate neverParsed childrenKeys (rows3 ! 0) rootInfo [Obj []] (JRef 0) (JStr ''id:1'')
      = Inr (JRef 1, [Obj [(''id:1'', JRef 1)], Obj [(''id'', JNum 1), (''name'', JStr ''a'')]])"
    by code_simp
  from pathStep_eval[OF rows3_ids(1) _ r l] show ?thesis
    by (simp add: childrenInfo_fields treeStart_def afterRoot1_def)
qed

lemma rows3_child5:
  "pathStep neverParsed childrenKeys (rows3 ! 0) childInfo afterRoot1 = Inr afterChild5"
proof -
  have r: "resolveBranch childInfo afterRoot1
      = Inr (JRef 2, [Obj [(''id:1'', JRef 1)],
                      Obj [(''id'', JNum 1), (''name'', JStr ''a''), (''children'', JRef 2)],
                      Obj []])"
    by code_simp
  have l: "locateOrCreate neverParsed childrenKeys (rows3 ! 0) childInfo
       [Obj [(''id:1'', JRef 1)],
        Obj [(''id'', JNum 1), (''name'', JStr ''a''), (''children'', JRef 2)],
        Obj []] (JRef 2) (JStr ''id:5'')
      = Inr (JRef 3, heapAfterRow1)"
    by code_simp
  from pathStep_eval[OF rows3_ids(4) _ r l] show ?thesis
    by (simp add: childrenInfo_fields afterRoot1_def afterChild5_def)
qed

lemma rows3_root2:
  "pathStep neverParsed childrenKeys (rows3 ! 2) rootInfo (afterChild5\<lparr>ts_curBranch := JRef 0\<rparr>)
     = Inr (afterChild5\<lparr>ts_curBranch := JRef 0\<rparr>)"
proof -
  have r: "resolveBranch rootInfo (afterChild5\<lparr>ts_curBranch := JRef 0\<rparr>) = Inr (JRef 0, heapAfterRow1)"
    by code_simp
  have l: "locateOrCreate neverParsed childrenKeys (rows3 ! 2) rootInfo heapAfterRow1 (JRef 0) (JStr ''id:1'')
      = Inr (JRef 1, heapAfterRow1)"
    by code_simp
  from pathStep_eval[OF rows3_ids(3) _ r l] show ?thesis
    by (auto simp add: childrenInfo_fields afterChild5_def fun_eq_iff)
qed

lemma rows3_child6:
  "pathStep neverParsed childrenKeys (rows3 ! 2) childInfo (afterChild5\<lparr>ts_curBranch := JRef 0\<rparr>)
     = Inr afterChild6"
proof -
  have r: "resolveBranch childInfo (afterChild5\<lparr>ts_curBranch := JRef 0\<rparr>) = Inr (JRef 2, heapAfterRow1)"
    by code_simp
  have l: "locateOrCreate neverParsed childrenKeys (rows3 ! 2) childInfo heapAfterRow1 (JRef 2) (JStr ''id:6'')
      = Inr (JRef 4, heapAfterChild6)"
    by code_simp
  from pathStep_eval[OF rows3_ids(6) _ r l] show ?thesis
    by (simp add: childrenInfo_fields afterChild5_def afterChild6_def)
qed

lemma rows3_root3:
  "pathStep neverParsed childrenKeys (rows3 ! 1) rootInfo (afterChild6\<lparr>ts_curBranch := JRef 0\<rparr>)
     = Inr afterRoot3"
proof -
  have r: "resolveBranch rootInfo (afterChild6\<lparr>ts_curBranch := JRef 0\<rparr>) = Inr (JRef 0, heapAfterChild6)"
    by code_simp
  have l: "locateOrCreate neverParsed childrenKeys (rows3 ! 1) rootInfo heapAfterChild6 (JRef 0) (JStr ''id:1'')
      = Inr (JRef 1, heapAfterChild6)"
    by code_simp
  from pathStep_eval[OF rows3_ids(2) _ r l] show ?thesis
    by (auto simp add: childrenInfo_fields afterChild6_def afterRoot3_def fun_eq_iff)
qed

lemma rows3_ready: "branchReady childInfo afterRoot1"
proof -
  have "getBranch childInfo (ts_heap afterRoot1) (JRef 1) = Inr JUndefined" by code_simp
  moreover have "holder childInfo afterRoot1 = JRef 1"
    by (simp add: holder_def childrenInfo_fields stackGet_def afterRoot1_def)
  moreover have "isObj (ts_heap afterRoot1) (JRef 1)"
    unfolding isObj_cell by (simp add: afterRoot1_def)
  ultimately show ?thesis by (simp add: branchReady_def)
qed

theorem model_keyed_by_identifier_witness:
  "pathLoop neverParsed childrenKeys (rows3 ! 0) [rootInfo] (treeStart\<lparr>ts_curBranch := JRef 0\<rparr>)
     = Inr afterRoot1 \<and>
   pathStep neverParsed childrenKeys (rows3 ! 0) childInfo afterRoot1 = Inr afterChild5 \<and>
   truthy (pi_idGetter childInfo (rows3 ! 0)) \<and>
   branchReady childInfo afterRoot1 \<and>
   pathLoop neverParsed childrenKeys (rows3 ! 0) [] afterChild5 = Inr afterChild5 \<and>
   rowLoop neverParsed childrenKeys (JRef 0) ([rootInfo] @ childInfo # []) [rows3 ! 2] afterChild5
     = Inr afterChild6 \<and>
   pathLoop neverParsed childrenKeys (rows3 ! 1) [rootInfo] (afterChild6\<lparr>ts_curBranch := JRef 0\<rparr>)
     = Inr afterRoot3 \<and>
   holder childInfo afterRoot3 = holder childInfo afterRoot1 \<and>
   pi_idGetter childInfo (rows3 ! 1) = pi_idGetter childInfo (rows3 ! 0) \<and>
   ts_heap afterRoot3 ! 2 = Obj [(''id:5'', JRef 3), (''id:6'', JRef 4)] \<and>
   ts_heap afterRoot3 ! 3 = Obj [(''id'', JNum 5), (''name'', JStr ''b'')] \<and>
   pathStep neverParsed childrenKeys (rows3 ! 1) childInfo afterRoot3
     = Inr (afterRoot3\<lparr>ts_stack := (ts_stack afterRoot3)(''children'' \<mapsto> JRef 3),
                        ts_curBranch := JRef 2\<rparr>) \<and>
   rowLoop neverParsed childrenKeys (JRef 0) ([rootInfo] @ childInfo # [])
       (rows3 ! 0 # [rows3 ! 2] @ rows3 ! 1 # []) treeStart
     = Inr (afterRoot3\<lparr>ts_stack := (ts_stack afterRoot3)(''children'' \<mapsto> JRef 3),
                        ts_curBranch := JRef 2\<rparr>) \<and>
   (case createKeyInfo childrenBuilder childrenInfos rows3 of
      Inl e \<Rightarrow> []
    | Inr f \<Rightarrow> map f ['''', ''children'']) = map childrenKeys ['''', ''children''] \<and>
   (case rowsToTree neverParsed childrenBuilder childrenInfos rows3 of
      Inl e \<Rightarrow> TVal JUndefined
    | Inr (r, h) \<Rightarrow> reify 4 h r)
     = TArr [TObj [(''id'', TVal (JNum 1)), (''name'', TVal (JStr ''a'')),
                   (''children'',
                    TArr [TObj [(''id'', TVal (JNum 5)), (''name'', TVal (JStr ''b''))],
                          TObj [(''id'', TVal (JNum 6)), (''name'', TVal (JStr ''c''))]])]]"
proof -
  have ts: "treeStart\<lparr>ts_curBranch := JRef 0\<rparr> = treeStart" by (simp add: treeStart_def)
  have b1: "pathLoop neverParsed childrenKeys (rows3 ! 0) [rootInfo] (treeStart\<lparr>ts_curBranch := JRef 0\<rparr>)
     = Inr afterRoot1"
    by (simp only: ts pathLoop.simps rows3_root1 sum.case)
  note f = rows3_child5
  have i1: "truthy (pi_idGetter childInfo (rows3 ! 0))" by (simp only: rows3_ids) simp
  have i2: "truthy (pi_idGetter childInfo (rows3 ! 1))" by (simp only: rows3_ids) simp
  have re: "pathLoop neverParsed childrenKeys (rows3 ! 0) [] afterChild5 = Inr afterChild5"
    by (simp only: pathLoop.simps)
  have bt: "rowLoop neverParsed childrenKeys (JRef 0) ([rootInfo] @ childInfo # []) [rows3 ! 2] afterChild5
     = Inr afterChild6"
    by (simp only: append.simps rowLoop.simps pathLoop.simps rows3_root2 rows3_child6 sum.case)
  have b2: "pathLoop neverParsed childrenKeys (rows3 ! 1) [rootInfo] (afterChild6\<lparr>ts_curBranch := JRef 0\<rparr>)
     = Inr afterRoot3"
    by (simp only: pathLoop.simps rows3_root3 sum.case)
  have p: "holder childInfo afterRoot3 = holder childInfo afterRoot1"
    by (simp add: holder_def childrenInfo_fields stackGet_def afterRoot1_def afterRoot3_def)
  have s: "pi_idGetter childInfo (rows3 ! 1) = pi_idGetter childInfo (rows3 ! 0)"
    by (simp only: rows3_ids)
  then have s': "pi_oneToOne childInfo \<or>
      ToString (pi_idGetter childInfo (rows3 ! 1)) = ToString (pi_idGetter childInfo (rows3 ! 0))"
    by (simp only: simp_thms)
  have h2: "ts_heap afterRoot3 ! 2 = Obj [(''id:5'', JRef 3), (''id:6'', JRef 4)]"
    by (simp add: afterRoot3_def heapAfterChild6_def)
  have h3: "ts_heap afterRoot3 ! 3 = Obj [(''id'', JNum 5), (''name'', JStr ''b'')]"
    by (simp add: afterRoot3_def heapAfterChild6_def)
  have c5: "ts_curBranch afterChild5 = JRef 2" "ts_stack afterChild5 ''children'' = Some (JRef 3)"
    by (simp_all add: afterChild5_def)
  from model_keyed_by_identifier[OF b1 f i1 rows3_ready re bt b2 p i2 s', of "[]"]
  obtain b br m where bm0: "ts_curBranch afterChild5 = JRef b"
    "ts_stack afterChild5 (pi_encPath childInfo) = Some m"
    and st: "pathStep neverParsed childrenKeys (rows3 ! 1) childInfo afterRoot3 =
             Inr (afterRoot3\<lparr>ts_stack := (ts_stack afterRoot3)(pi_encPath childInfo \<mapsto> m),
                             ts_curBranch := JRef b\<rparr>)"
    and lp: "rowLoop neverParsed childrenKeys (JRef 0) ([rootInfo] @ childInfo # [])
               (rows3 ! 0 # [rows3 ! 2] @ rows3 ! 1 # []) treeStart =
             (case pathLoop neverParsed childrenKeys (rows3 ! 1) []
                     (afterRoot3\<lparr>ts_stack := (ts_stack afterRoot3)(pi_encPath childInfo \<mapsto> m),
                                  ts_curBranch := JRef b\<rparr>) of
                Inl e \<Rightarrow> Inl e
              | Inr s \<Rightarrow> rowLoop neverParsed childrenKeys (JRef 0) ([rootInfo] @ childInfo # []) [] s)"
    by blast
  from bm0 c5 have bm: "b = 2" "m = JRef 3" by (simp_all add: childrenInfo_fields)
  from st have st': "pathStep neverParsed childrenKeys (rows3 ! 1) childInfo afterRoot3
     = Inr (afterRoot3\<lparr>ts_stack := (ts_stack afterRoot3)(''children'' \<mapsto> JRef 3),
                        ts_curBranch := JRef 2\<rparr>)"
    by (simp only: bm childrenInfo_fields)
  from lp have lp': "rowLoop neverParsed childrenKeys (JRef 0) ([rootInfo] @ childInfo # [])
       (rows3 ! 0 # [rows3 ! 2] @ rows3 ! 1 # []) treeStart
     = Inr (afterRoot3\<lparr>ts_stack := (ts_stack afterRoot3)(''children'' \<mapsto> JRef 3),
                        ts_curBranch := JRef 2\<rparr>)"
    by (simp only: bm childrenInfo_fields pathLoop.simps rowLoop.simps sum.case)
  have k: "(case createKeyInfo childrenBuilder childrenInfos rows3 of
      Inl e \<Rightarrow> []
    | Inr f \<Rightarrow> map f ['''', ''children'']) = map childrenKeys ['''', ''children'']"
    by code_simp
  have r: "(case rowsToTree neverParsed childrenBuilder childrenInfos rows3 of
      Inl e \<Rightarrow> TVal JUndefined
    | Inr (r, h) \<Rightarrow> reify 4 h r)
     = TArr [TObj [(''id'', TVal (JNum 1)), (''name'', TVal (JStr ''a'')),
                   (''children'',
                    TArr [TObj [(''id'', TVal (JNum 5)), (''name'', TVal (JStr ''b''))],
                          TObj [(''id'', TVal (JNum 6)), (''name'', TVal (JStr ''c''))]])]]"
    by code_simp
  from b1 f i1 rows3_ready re bt b2 p s h2 h3 st' lp' k r show ?thesis by blast
qed


text \<open>
  Claim C6 as stated says that the objects of a branch are keyed by the identifier, one
  object for each identifier. This holds of a path that is not one-to-one. The branch
  of a one-to-one path is the parent model and the key is the name of the relation,
  whatever the identifier. In the rows below the one-to-one relation \<open>parent\<close> has the
  identifier 5 in the first row and 6 in the two other rows, under the same root.
  The path finds the model of the first row at each later row: the tree has the parent
  5, and for the identifier 6, which two rows yield, no object is created.
\<close>

definition rowsTwoParents :: "obj list" where
  "rowsTwoParents =
     [[(''id'', JNum 1), (''name'', JStr ''a''), (''parent:id'', JNum 5), (''parent:name'', JStr ''p'')],
      [(''id'', JNum 1), (''name'', JStr ''a''), (''parent:id'', JNum 6), (''parent:name'', JStr ''q'')],
      [(''id'', JNum 1), (''name'', JStr ''a''), (''parent:id'', JNum 6), (''parent:name'', JStr ''q'')]]"

theorem one_to_one_keyed_by_relation_name:
  "pi_oneToOne parentInfo \<and>
   map (pi_idGetter ownerInfo) rowsTwoParents = [JStr ''id:1'', JStr ''id:1'', JStr ''id:1''] \<and>
   map (pi_idGetter parentInfo) rowsTwoParents = [JStr ''id:5'', JStr ''id:6'', JStr ''id:6''] \<and>
   rowsToTree neverParsed parentBuilder parentInfos rowsTwoParents =
     Inr (JRef 3,
       [Obj [(''id:1'', JRef 1)],
        Obj [(''id'', JNum 1), (''name'', JStr ''a''), (''parent'', JRef 2)],
        Obj [(''id'', JNum 5), (''name'', JStr ''p'')],
        Arr [JRef 1]]) \<and>
   (case rowsToTree neverParsed parentBuilder parentInfos rowsTwoParents of
      Inl e \<Rightarrow> TVal JUndefined
    | Inr (r, h) \<Rightarrow> reify 4 h r)
     = TArr [TObj [(''id'', TVal (JNum 1)), (''name'', TVal (JStr ''a'')),
                   (''parent'', TObj [(''id'', TVal (JNum 5)), (''name'', TVal (JStr ''p''))])]]"
proof -
  have a: "pi_oneToOne parentInfo" by (simp add: parentInfo_def)
  have b: "map (pi_idGetter ownerInfo) rowsTwoParents = [JStr ''id:1'', JStr ''id:1'', JStr ''id:1'']"
    by code_simp
  have c: "map (pi_idGetter parentInfo) rowsTwoParents = [JStr ''id:5'', JStr ''id:6'', JStr ''id:6'']"
    by code_simp
  have d: "rowsToTree neverParsed parentBuilder parentInfos rowsTwoParents =
     Inr (JRef 3,
       [Obj [(''id:1'', JRef 1)],
        Obj [(''id'', JNum 1), (''name'', JStr ''a''), (''parent'', JRef 2)],
        Obj [(''id'', JNum 5), (''name'', JStr ''p'')],
        Arr [JRef 1]])"
    by code_simp
  have e: "(case rowsToTree neverParsed parentBuilder parentInfos rowsTwoParents of
      Inl e \<Rightarrow> TVal JUndefined
    | Inr (r, h) \<Rightarrow> reify 4 h r)
     = TArr [TObj [(''id'', TVal (JNum 1)), (''name'', TVal (JStr ''a'')),
                   (''parent'', TObj [(''id'', TVal (JNum 5)), (''name'', TVal (JStr ''p''))])]]"
    by code_simp
  from a b c d e show ?thesis by blast
qed


section \<open>The uids are omitted before the insert callback is called\<close>



lemma lookupNode_obj:
  assumes "a < length h" "h ! a = Obj ob"
  shows "lookupNode g h (JRef a) = nodesById g (ToString (get_prop ob uidProp))"
  using assms by (simp add: lookupNode_def)








section \<open>The references and the store\<close>

text \<open>
  What the finalization relies on in the code that the inserter calls: the resolvers and
  the insert callback settle without rejecting, and an object of the store stays an
  object and keeps the value of its \<open>#ref\<close> (\<open>ref_frame\<close>).
\<close>

definition ref_frame :: "heap \<Rightarrow> heap \<Rightarrow> bool" where
  "ref_frame h h' \<longleftrightarrow>
     length h \<le> length h' \<and>
     (\<forall>a < length h. \<forall>ob. h ! a = Obj ob \<longrightarrow>
        (\<exists>ob'. h' ! a = Obj ob' \<and> get_prop ob' uidRefProp = get_prop ob uidRefProp))"

definition resolvers_settle :: "graph \<Rightarrow> bool" where
  "resolvers_settle g \<longleftrightarrow>
     (\<forall>nd \<in> set (nodes g). \<forall>d \<in> set (isNeededBy nd).
        \<forall>m h. \<exists>h'. dep_resolve d m h = Some h' \<and> ref_frame h h')"

definition inserter_settles :: "'s insertCallback \<Rightarrow> bool" where
  "inserter_settles inserter \<longleftrightarrow>
     (\<forall>ti h0 h db. \<exists>h' db'. inserter ti h0 (h, db) = Some (h', db') \<and> ref_frame h h')"

lemma ref_frame_refl: "ref_frame h h"
  by (simp add: ref_frame_def)

lemma ref_frame_cell:
  assumes "ref_frame h h'" "a < length h" "h ! a = Obj ob"
  shows "a < length h' \<and> (\<exists>ob'. h' ! a = Obj ob' \<and> get_prop ob' uidRefProp = get_prop ob uidRefProp)"
proof -
  from assms(1) have l: "length h \<le> length h'"
    and c: "\<forall>a < length h. \<forall>ob. h ! a = Obj ob \<longrightarrow>
        (\<exists>ob'. h' ! a = Obj ob' \<and> get_prop ob' uidRefProp = get_prop ob uidRefProp)"
    unfolding ref_frame_def by blast+
  from c assms(2,3) have "\<exists>ob'. h' ! a = Obj ob' \<and> get_prop ob' uidRefProp = get_prop ob uidRefProp"
    by blast
  with l assms(2) show ?thesis by simp
qed

lemma ref_frame_trans:
  assumes "ref_frame h h1" "ref_frame h1 h2"
  shows "ref_frame h h2"
  unfolding ref_frame_def
proof (intro conjI allI impI)
  show "length h \<le> length h2" using assms by (simp add: ref_frame_def)
next
  fix a ob assume a: "a < length h" and o: "h ! a = Obj ob"
  from ref_frame_cell[OF assms(1) a o] obtain ob1 where 1: "a < length h1" "h1 ! a = Obj ob1"
    "get_prop ob1 uidRefProp = get_prop ob uidRefProp" by blast
  from ref_frame_cell[OF assms(2) 1(1,2)] obtain ob2 where "h2 ! a = Obj ob2"
    "get_prop ob2 uidRefProp = get_prop ob1 uidRefProp" by blast
  with 1 show "\<exists>ob'. h2 ! a = Obj ob' \<and> get_prop ob' uidRefProp = get_prop ob uidRefProp" by simp
qed

lemma ref_frame_append: "ref_frame h (h @ cells)"
  by (simp add: ref_frame_def nth_append)

lemma ref_frame_model:
  assumes "ref_frame h h'" "isObj h m"
  shows "isObj h' m" "get_prop (objOf h' m) uidRefProp = get_prop (objOf h m) uidRefProp"
proof -
  from assms(2) obtain a ob where m: "m = JRef a" "a < length h" "h ! a = Obj ob"
    unfolding isObj_cell by blast
  from ref_frame_cell[OF assms(1) m(2,3)] obtain ob' where o: "a < length h'" "h' ! a = Obj ob'"
    "get_prop ob' uidRefProp = get_prop ob uidRefProp" by blast
  from m(1) o show "isObj h' m" unfolding isObj_cell by blast
  from m o show "get_prop (objOf h' m) uidRefProp = get_prop (objOf h m) uidRefProp"
    by (simp add: objOf_def)
qed

lemma final_ok_frame:
  assumes refs: "refs_ok g" and ok: "final_ok g h (nodes g)"
    and sg: "same_graph g g'" and fr: "ref_frame h h'"
  shows "final_ok g' h' (nodes g')"
proof -
  note len = same_graph_length[OF sg]
  from sg have nb: "nodesById g' = nodesById g" by (simp add: same_graph_def)
  have model: "node_model (nodes g' ! n) = node_model (nodes g ! n)" if "n < length (nodes g)" for n
    using unmarked_fields(2)[OF same_graph_nth[OF sg that]] .
  from ok have d: "distinct (map node_model (nodes g))"
    and each: "\<forall>nd \<in> set (nodes g).
        isObj h (node_model nd) \<and>
        (isRef h nd \<longrightarrow>
           (\<exists>a. actualOf g h nd = Some a \<and> isObj h (node_model (nodes g ! a)) \<and>
                \<not> isRef h (nodes g ! a)))"
    by (simp_all add: final_ok_def)
  have d': "distinct (map node_model (nodes g'))" using d same_graph_maps(1)[OF sg] by simp
  have e': "isObj h' (node_model nd') \<and>
        (isRef h' nd' \<longrightarrow>
           (\<exists>a. actualOf g' h' nd' = Some a \<and> isObj h' (node_model (nodes g' ! a)) \<and>
                \<not> isRef h' (nodes g' ! a)))"
    if "nd' \<in> set (nodes g')" for nd'
  proof -
    from that obtain n where n': "n < length (nodes g')" "nodes g' ! n = nd'"
      by (auto simp: in_set_conv_nth)
    with len have n: "n < length (nodes g)" by simp
    let ?nd = "nodes g ! n"
    from n have mem: "?nd \<in> set (nodes g)" by simp
    from model[OF n] n'(2) have mm: "node_model nd' = node_model ?nd" by simp
    from each mem have o: "isObj h (node_model ?nd)" by blast
    note f = ref_frame_model[OF fr o]
    have r: "isRef h' nd' = isRef h ?nd" using f(2) mm by (simp add: isRef_def)
    have a: "actualOf g' h' nd' = actualOf g h ?nd" using f(2) mm nb by (simp add: actualOf_def)
    have "\<exists>a. actualOf g' h' nd' = Some a \<and> isObj h' (node_model (nodes g' ! a)) \<and>
                \<not> isRef h' (nodes g' ! a)" if "isRef h' nd'"
    proof -
      from that r each mem obtain b where b: "actualOf g h ?nd = Some b"
        "isObj h (node_model (nodes g ! b))" "\<not> isRef h (nodes g ! b)" by blast
      from b(1) refs have bl: "b < length (nodes g)" by (auto simp: actualOf_def refs_ok_def)
      note fb = ref_frame_model[OF fr b(2)]
      from fb(1) model[OF bl] have 1: "isObj h' (node_model (nodes g' ! b))" by simp
      from fb(2) model[OF bl] b(3) have 2: "\<not> isRef h' (nodes g' ! b)" by (simp add: isRef_def)
      from a b(1) 1 2 show ?thesis by simp
    qed
    with f(1) mm show ?thesis by simp
  qed
  from d' e' show ?thesis unfolding final_ok_def by blast
qed

section \<open>A round that settles\<close>

lemma omitUidsLoop_total:
  "\<forall>m \<in> set ms. isObj h m \<Longrightarrow> \<exists>h'. omitUidsLoop h ms = Inr h'"
proof (induction ms arbitrary: h)
  case Nil
  then show ?case by simp
next
  case (Cons m ms)
  from Cons.prems obtain a ob where m: "m = JRef a" "a < length h" "h ! a = Obj ob"
    unfolding isObj_cell by auto
  let ?h1 = "h[a := Obj (omitArray ob [uidProp])]"
  from m have o: "omitProps h m [uidProp] = Inr ?h1"
    by (simp add: omitProps_def del: omitArray.simps)
  have "\<forall>m' \<in> set ms. isObj ?h1 m'" using Cons.prems by (simp add: isObj_update)
  from Cons.IH[OF this] obtain h' where "omitUidsLoop ?h1 ms = Inr h'" by blast
  with o show ?case by (simp del: omitArray.simps)
qed

lemma omitUidsLoop_ref_frame:
  assumes "omitUidsLoop h ms = Inr h'"
  shows "ref_frame h h'"
proof -
  note r = omitUidsLoop_result[OF assms]
  from r have l: "length h' = length h"
    and c: "\<forall>a < length h. h' ! a = (if JRef a \<in> set ms then stripCell (h ! a) else h ! a)"
    by blast+
  show ?thesis unfolding ref_frame_def
  proof (intro conjI allI impI)
    show "length h \<le> length h'" using l by simp
  next
    fix a ob assume a: "a < length h" and o: "h ! a = Obj ob"
    from c a have "h' ! a = (if JRef a \<in> set ms then stripCell (h ! a) else h ! a)" by blast
    with o have "h' ! a = Obj ob \<or> h' ! a = Obj (delete_prop ob uidProp)"
      by (simp add: stripCell_def split: if_splits)
    then show "\<exists>ob'. h' ! a = Obj ob' \<and> get_prop ob' uidRefProp = get_prop ob uidRefProp"
      using uid_ref_distinct by (auto simp: get_delete_prop)
  qed
qed

text \<open>
  An insertion that has been started is ready to settle when its promise is that of the
  callback and, unless it is an insertion of a join table, the graph has a node under
  every uid that was kept, one for each model.
\<close>

definition started_ok :: "graph \<Rightarrow> 's insertCallback \<Rightarrow> 's started \<Rightarrow> bool" where
  "started_ok g inserter s \<longleftrightarrow>
     (\<exists>h0. st_promise s = inserter (st_insertion s) h0) \<and>
     (\<not> isJoinTableInsertion (st_insertion s) \<longrightarrow>
        length (st_uids s) = length (ti_models (st_insertion s)) \<and>
        (\<forall>u \<in> set (st_uids s). nodesById g (ToString u) \<noteq> None))"

lemma startInsertion_total:
  assumes "\<not> isJoinTableInsertion ti \<longrightarrow>
             (\<forall>m \<in> set (ti_models ti). isObj h m \<and> lookupNode g h m \<noteq> None)"
  shows "\<exists>s h1. startInsertion inserter ti h = Inr (s, h1) \<and> ref_frame h h1 \<and>
           started_ok g inserter s \<and> (isJoinTableInsertion ti \<longrightarrow> h1 = h)"
proof (cases "isJoinTableInsertion ti")
  case True
  then show ?thesis
    by (simp add: startInsertion_def ref_frame_refl started_ok_def) blast
next
  case False
  with assms have ms: "\<forall>m \<in> set (ti_models ti). isObj h m \<and> lookupNode g h m \<noteq> None" by simp
  then have "\<forall>m \<in> set (ti_models ti). isObj h m" by blast
  from omitUidsLoop_total[OF this] obtain h1 where l: "omitUidsLoop h (ti_models ti) = Inr h1"
    by blast
  let ?uids = "map (\<lambda>m. get_prop (objOf h m) uidProp) (ti_models ti)"
  let ?s = "\<lparr>st_insertion = ti, st_uids = ?uids, st_promise = inserter ti h1\<rparr>"
  from l False have st: "startInsertion inserter ti h = Inr (?s, h1)"
    by (simp add: startInsertion_def omitUids_def)
  have u: "nodesById g (ToString u) \<noteq> None" if "u \<in> set ?uids" for u
  proof -
    from that obtain m where m: "m \<in> set (ti_models ti)" "u = get_prop (objOf h m) uidProp" by auto
    with ms have o: "isObj h m" and k: "lookupNode g h m \<noteq> None" by blast+
    from o obtain a ob where a: "m = JRef a" "a < length h" "h ! a = Obj ob"
      unfolding isObj_cell by blast
    from lookupNode_obj[OF a(2,3), of g] k a m(2) show ?thesis by (simp add: objOf_def)
  qed
  have "started_ok g inserter ?s" using False u by (simp add: started_ok_def) blast
  with st omitUidsLoop_ref_frame[OF l] False show ?thesis by blast
qed

lemma nodeModels_Cons:
  "nodeModels (kv # batch) =
     (if isJoinTableInsertion (snd kv) then [] else ti_models (snd kv)) @ nodeModels batch"
  by (simp add: nodeModels_def)

lemma startInsertions_total:
  "distinct (nodeModels batch) \<Longrightarrow>
   \<forall>m \<in> set (nodeModels batch). isObj h m \<and> lookupNode g h m \<noteq> None \<Longrightarrow>
     \<exists>ss h1. startInsertions inserter batch h = Inr (ss, h1) \<and> ref_frame h h1 \<and>
             (\<forall>s \<in> set ss. started_ok g inserter s)"
proof (induction batch arbitrary: h)
  case Nil
  then show ?case by (simp add: ref_frame_refl)
next
  case (Cons kv batch)
  let ?ti = "snd kv"
  have pre: "\<not> isJoinTableInsertion ?ti \<longrightarrow>
             (\<forall>m \<in> set (ti_models ?ti). isObj h m \<and> lookupNode g h m \<noteq> None)"
    using Cons.prems(2) by (simp add: nodeModels_Cons)
  from startInsertion_total[OF pre, of inserter] obtain s h1 where
    st: "startInsertion inserter ?ti h = Inr (s, h1)" and f1: "ref_frame h h1"
    and so: "started_ok g inserter s" and j: "isJoinTableInsertion ?ti \<longrightarrow> h1 = h"
    by blast
  note r = startInsertion_result[OF st]
  have d: "distinct (nodeModels batch)" using Cons.prems(1) by (simp add: nodeModels_Cons)
  have rest: "\<forall>m \<in> set (nodeModels batch). isObj h1 m \<and> lookupNode g h1 m \<noteq> None"
  proof
    fix m assume m: "m \<in> set (nodeModels batch)"
    with Cons.prems(2) have o: "isObj h m" and k: "lookupNode g h m \<noteq> None"
      by (simp_all add: nodeModels_Cons)
    show "isObj h1 m \<and> lookupNode g h1 m \<noteq> None"
    proof (cases "isJoinTableInsertion ?ti")
      case True
      with j o k show ?thesis by simp
    next
      case False
      with Cons.prems(1) m have notin: "m \<notin> set (ti_models ?ti)"
        by (auto simp: nodeModels_Cons)
      from o obtain a ob where a: "m = JRef a" "a < length h" "h ! a = Obj ob"
        unfolding isObj_cell by blast
      from r(2)[OF a(2)] notin a(1) have c: "h1 ! a = h ! a" by simp
      from same_cell_model[OF o r(1)] a c
      have "isObj h1 m" and "readProp h1 m uidProp = readProp h m uidProp" by auto
      with k show ?thesis by (simp add: lookupNode_def)
    qed
  qed
  from Cons.IH[OF d rest] obtain ss h2 where
    ss: "startInsertions inserter batch h1 = Inr (ss, h2)" and f2: "ref_frame h1 h2"
    and sso: "\<forall>s \<in> set ss. started_ok g inserter s" by blast
  from st ss have "startInsertions inserter (kv # batch) h = Inr (s # ss, h2)" by simp
  moreover from f1 f2 have "ref_frame h h2" by (rule ref_frame_trans)
  moreover from so sso have "\<forall>x \<in> set (s # ss). started_ok g inserter x" by simp
  ultimately show ?case by blast
qed

lemma resolveAll_total:
  "\<forall>d \<in> set deps. \<forall>m h. \<exists>h'. dep_resolve d m h = Some h' \<and> ref_frame h h' \<Longrightarrow>
     \<exists>h'. resolveAll deps m h = Inr h' \<and> ref_frame h h'"
proof (induction deps arbitrary: h)
  case Nil
  then show ?case by (simp add: ref_frame_refl)
next
  case (Cons d deps)
  from Cons.prems obtain h1 where 1: "dep_resolve d m h = Some h1" "ref_frame h h1"
    by (meson list.set_intros(1))
  from Cons.prems have "\<forall>d \<in> set deps. \<forall>m h. \<exists>h'. dep_resolve d m h = Some h' \<and> ref_frame h h'"
    by simp
  from Cons.IH[OF this, of h1] obtain h' where 2: "resolveAll deps m h1 = Inr h'" "ref_frame h1 h'"
    by blast
  from 1 2 have "resolveAll (d # deps) m h = Inr h'" by simp
  moreover from 1(2) 2(2) have "ref_frame h h'" by (rule ref_frame_trans)
  ultimately show ?case by blast
qed

lemma resolveDepsLoop_total:
  assumes "refs_ok g" "resolvers_settle g"
  shows "length uids = length ms \<Longrightarrow> \<forall>u \<in> set uids. nodesById g (ToString u) \<noteq> None \<Longrightarrow>
           \<exists>h'. resolveDepsLoop g ms uids h = Inr h' \<and> ref_frame h h'"
proof (induction ms arbitrary: uids h)
  case Nil
  then show ?case by (simp add: ref_frame_refl)
next
  case (Cons m ms)
  from Cons.prems(1) obtain u us where us: "uids = u # us" "length us = length ms"
    by (cases uids) simp_all
  from Cons.prems(2) us obtain n where n: "nodesById g (ToString u) = Some n" by auto
  with assms(1) have "n < length (nodes g)" by (auto simp: refs_ok_def)
  then have "nodes g ! n \<in> set (nodes g)" by simp
  with assms(2) have "\<forall>d \<in> set (isNeededBy (nodes g ! n)).
      \<forall>m h. \<exists>h'. dep_resolve d m h = Some h' \<and> ref_frame h h'"
    unfolding resolvers_settle_def by blast
  from resolveAll_total[OF this, of m h] obtain h1 where
    1: "resolveAll (isNeededBy (nodes g ! n)) m h = Inr h1" "ref_frame h h1" by blast
  from Cons.prems(2) us have "\<forall>u \<in> set us. nodesById g (ToString u) \<noteq> None" by simp
  from Cons.IH[OF us(2) this, of h1] obtain h' where
    2: "resolveDepsLoop g ms us h1 = Inr h'" "ref_frame h1 h'" by blast
  from n 1 2 us have "resolveDepsLoop g (m # ms) uids h = Inr h'" by simp
  moreover from 1(2) 2(2) have "ref_frame h h'" by (rule ref_frame_trans)
  ultimately show ?case by blast
qed

lemma settleInsertions_total:
  assumes "refs_ok g" "resolvers_settle g" "inserter_settles inserter"
  shows "\<forall>s \<in> set ss. started_ok g inserter s \<Longrightarrow>
           \<exists>h2 db2. settleInsertions g ss (h, db) = Inr (h2, db2) \<and> ref_frame h h2"
proof (induction ss arbitrary: h db)
  case Nil
  then show ?case by (simp add: ref_frame_refl)
next
  case (Cons s ss)
  from Cons.prems have so: "started_ok g inserter s"
    and rest: "\<forall>s \<in> set ss. started_ok g inserter s" by simp_all
  from so obtain h0 where "st_promise s = inserter (st_insertion s) h0"
    by (auto simp: started_ok_def)
  with assms(3) obtain h1 db1 where p: "st_promise s (h, db) = Some (h1, db1)" "ref_frame h h1"
    unfolding inserter_settles_def by metis
  show ?case
  proof (cases "isJoinTableInsertion (st_insertion s)")
    case True
    from Cons.IH[OF rest, of h1 db1] obtain h2 db2 where
      2: "settleInsertions g ss (h1, db1) = Inr (h2, db2)" "ref_frame h1 h2" by blast
    from True p 2 have "settleInsertions g (s # ss) (h, db) = Inr (h2, db2)" by simp
    moreover from p(2) 2(2) have "ref_frame h h2" by (rule ref_frame_trans)
    ultimately show ?thesis by blast
  next
    case False
    with so have l: "length (st_uids s) = length (ti_models (st_insertion s))"
      and u: "\<forall>u \<in> set (st_uids s). nodesById g (ToString u) \<noteq> None"
      by (simp_all add: started_ok_def)
    from resolveDepsLoop_total[OF assms(1,2) l u, of h1] obtain hr where
      r: "resolveDepsLoop g (ti_models (st_insertion s)) (st_uids s) h1 = Inr hr" "ref_frame h1 hr"
      by blast
    from Cons.IH[OF rest, of hr db1] obtain h2 db2 where
      2: "settleInsertions g ss (hr, db1) = Inr (h2, db2)" "ref_frame hr h2" by blast
    from False p r 2 have "settleInsertions g (s # ss) (h, db) = Inr (h2, db2)"
      by (simp add: resolveDepsForInsertion_def)
    moreover from p(2) r(2) 2(2) have "ref_frame h h2" by (blast intro: ref_frame_trans)
    ultimately show ?thesis by blast
  qed
qed

lemma addJoinRow_store: "\<exists>c. snd (addJoinRow g nd conn bh) = snd bh @ [c]"
  by (simp add: addJoinRow_def Let_def alloc_def)

lemma foldl_conns_store:
  "\<exists>cells. snd (foldl (\<lambda>bh' conn. addJoinRow g nd conn bh') bh conns) = snd bh @ cells"
proof (induction conns arbitrary: bh)
  case Nil
  then show ?case by simp
next
  case (Cons c conns)
  from addJoinRow_store[of g nd c bh] obtain x where x: "snd (addJoinRow g nd c bh) = snd bh @ [x]"
    by blast
  from Cons.IH[of "addJoinRow g nd c bh"] obtain cells where
    "snd (foldl (\<lambda>bh' conn. addJoinRow g nd conn bh') (addJoinRow g nd c bh) conns)
       = snd (addJoinRow g nd c bh) @ cells" by blast
  with x show ?case by simp
qed

lemma foldl_nodes_store:
  "\<exists>cells. snd (foldl (\<lambda>bh nd. foldl (\<lambda>bh' conn. addJoinRow g nd conn bh') bh
                                   (manyToManyConnections nd)) bh nds) = snd bh @ cells"
proof (induction nds arbitrary: bh)
  case Nil
  then show ?case by simp
next
  case (Cons nd nds)
  let ?b1 = "foldl (\<lambda>bh' conn. addJoinRow g nd conn bh') bh (manyToManyConnections nd)"
  from foldl_conns_store[of g nd bh "manyToManyConnections nd"] obtain c1 where
    1: "snd ?b1 = snd bh @ c1" by blast
  from Cons.IH[of ?b1] obtain c2 where
    "snd (foldl (\<lambda>bh nd. foldl (\<lambda>bh' conn. addJoinRow g nd conn bh') bh
                                   (manyToManyConnections nd)) ?b1 nds) = snd ?b1 @ c2" by blast
  with 1 show ?case by simp
qed

lemma joinBatch_store: "ref_frame h (snd (createManyToManyRelationJoinRowBatch g h))"
proof -
  from foldl_nodes_store[of g "([], h)" "nodes g"] obtain cells where
    "snd (foldl (\<lambda>bh nd. foldl (\<lambda>bh' conn. addJoinRow g nd conn bh') bh
                                   (manyToManyConnections nd)) ([], h) (nodes g)) = h @ cells"
    by auto
  then have "snd (createManyToManyRelationJoinRowBatch g h) = h @ cells"
    by (simp add: createManyToManyRelationJoinRowBatch_def split_def)
  then show ?thesis by (simp add: ref_frame_append)
qed

lemma resolvers_settle_same:
  assumes "same_graph g g1" "resolvers_settle g"
  shows "resolvers_settle g1"
  unfolding resolvers_settle_def
proof (intro ballI)
  fix nd d assume "nd \<in> set (nodes g1)" and d: "d \<in> set (isNeededBy nd)"
  then obtain n where n: "n < length (nodes g1)" "nodes g1 ! n = nd"
    by (auto simp: in_set_conv_nth)
  with same_graph_length[OF assms(1)] have n': "n < length (nodes g)" by simp
  from unmarked_fields(5)[OF same_graph_nth[OF assms(1) n']] n
  have "isNeededBy nd = isNeededBy (nodes g ! n)" by simp
  with d n' assms(2) show "\<forall>m h. \<exists>h'. dep_resolve d m h = Some h' \<and> ref_frame h h'"
    unfolding resolvers_settle_def by (metis nth_mem)
qed

lemma started_ok_same:
  "same_graph g g1 \<Longrightarrow> started_ok g inserter s \<Longrightarrow> started_ok g1 inserter s"
  by (simp add: started_ok_def same_graph_def)


section \<open>The result of a run that settles\<close>

text \<open>What holds of the state of the inserter at the start of every round.\<close>

definition run_ok :: "inserterState \<Rightarrow> bool" where
  "run_ok st \<longleftrightarrow>
     refs_ok (gi_graph st) \<and> resolvers_ok (gi_graph st) \<and> resolvers_settle (gi_graph st) \<and>
     (\<not> gi_done st \<longrightarrow> ids_ok (gi_graph st) (gi_store st)) \<and>
     final_ok (gi_graph st) (gi_store st) (nodes (gi_graph st))"

text \<open>
  The rounds of a run before the one that finalizes, as \<open>_executeNextBatch\<close> performs
  them: each asks for the next batch, starts its insertions and lets them settle. The
  relation gives the batches of these rounds and the state and the database that they
  leave.
\<close>

inductive rounds ::
  "'s insertCallback \<Rightarrow> inserterState \<Rightarrow> 's \<Rightarrow> batch list \<Rightarrow> inserterState \<Rightarrow> 's \<Rightarrow> bool"
  for inserter :: "'s insertCallback" where
  rounds_none: "rounds inserter st db [] st db"
| rounds_step:
    "nextBatch st = Inr (Some batch, st1) \<Longrightarrow>
     startInsertions inserter batch (gi_store st1) = Inr (ss, h1) \<Longrightarrow>
     settleInsertions (gi_graph st1) ss (h1, db) = Inr (h2, db2) \<Longrightarrow>
     rounds inserter (st1\<lparr>gi_store := h2\<rparr>) db2 trace st' db' \<Longrightarrow>
     rounds inserter st db (batch # trace) st' db'"

lemma batch_models_ready:
  assumes "ids_ok g h"
  shows "\<forall>m \<in> set (nodeModels (createBatch g)). isObj h m \<and> lookupNode g h m \<noteq> None"
proof
  fix m assume "m \<in> set (nodeModels (createBatch g))"
  then have "m \<in> node_model ` {nd \<in> set (nodes g). eligible nd}"
    by (simp add: nodeModels_createBatch set_createBatch_models)
  then obtain nd where nd: "nd \<in> set (nodes g)" "eligible nd" "m = node_model nd" by blast
  from nd(1) obtain n where n: "n < length (nodes g)" "nodes g ! n = nd"
    by (auto simp: in_set_conv_nth)
  from nd(2) have "\<not> handled nd" by (simp add: eligible_def)
  with assms n nd(3) show "isObj h m \<and> lookupNode g h m \<noteq> None" by (auto simp: ids_ok_def)
qed

lemma executeNextBatch_total:
  assumes io: "inserter_ok inserter" and ist: "inserter_settles inserter"
  shows "run_ok st \<Longrightarrow> roundBound st \<le> fuel \<Longrightarrow>
           \<exists>trace hr db' g' hf.
             executeNextBatch fuel inserter models st db = Some (trace, Inr (models, hr, db')) \<and>
             rounds inserter st db trace \<lparr>gi_graph = g', gi_done = True, gi_store = hf\<rparr> db' \<and>
             same_graph (gi_graph st) g' \<and> ref_frame (gi_store st) hf \<and>
             final_ok g' hf (nodes g') \<and> finalizeGraph g' hf = Inr hr"
proof (induction fuel arbitrary: st db)
  case 0
  then show ?case by (simp add: roundBound_def split: if_splits)
next
  case (Suc fuel)
  let ?g = "gi_graph st" and ?h = "gi_store st"
  from Suc.prems(1) have refs: "refs_ok ?g" and res: "resolvers_ok ?g"
    and rs: "resolvers_settle ?g" and fo: "final_ok ?g ?h (nodes ?g)"
    by (simp_all add: run_ok_def)
  show ?case
  proof (cases "gi_done st")
    case True
    from finalizeNodes_result[OF fo] obtain hr where "finalizeNodes ?g (nodes ?g) ?h = Inr hr"
      by blast
    then have f: "finalizeGraph ?g ?h = Inr hr" by (simp add: finalizeGraph_def)
    from executeNextBatch_done[OF True, of fuel inserter models db] f
    have "executeNextBatch (Suc fuel) inserter models st db = Some ([], Inr (models, hr, db))"
      by (simp add: finish_def)
    moreover from True have "st = \<lparr>gi_graph = ?g, gi_done = True, gi_store = ?h\<rparr>" by simp
    then have "rounds inserter st db [] \<lparr>gi_graph = ?g, gi_done = True, gi_store = ?h\<rparr> db"
      using rounds_none[of inserter st db] by simp
    ultimately show ?thesis using f fo same_graph_refl[of ?g] ref_frame_refl[of ?h] by blast
  next
    case False
    with Suc.prems(1) have ids: "ids_ok ?g ?h" by (simp add: run_ok_def)
    from False Suc.prems(2) have fuel: "unhandledCount ?g + 1 \<le> fuel" by (simp add: roundBound_def)
    show ?thesis
    proof (cases "createBatch ?g = []")
      case True
      let ?jb = "fst (createManyToManyRelationJoinRowBatch ?g ?h)"
      let ?hj = "snd (createManyToManyRelationJoinRowBatch ?g ?h)"
      let ?st1 = "st\<lparr>gi_done := True, gi_store := ?hj\<rparr>"
      note step = executeNextBatch_step[OF nextBatch_empty[OF False True], of fuel inserter models db]
      have "distinct (nodeModels ?jb)"
        "\<forall>m \<in> set (nodeModels ?jb). isObj ?hj m \<and> lookupNode ?g ?hj m \<noteq> None"
        by (simp_all add: nodeModels_join)
      from startInsertions_total[OF this, of inserter] obtain ss h1 where
        si: "startInsertions inserter ?jb ?hj = Inr (ss, h1)" and f1: "ref_frame ?hj h1"
        and so: "\<forall>s \<in> set ss. started_ok ?g inserter s" by blast
      from settleInsertions_total[OF refs rs ist so, of h1 db] obtain h2 db2 where
        se: "settleInsertions ?g ss (h1, db) = Inr (h2, db2)" and f2: "ref_frame h1 h2" by blast
      from joinBatch_store[of ?h ?g] f1 f2 have fr: "ref_frame ?h h2"
        by (blast intro: ref_frame_trans)
      let ?st2 = "?st1\<lparr>gi_store := h2\<rparr>"
      from final_ok_frame[OF refs fo same_graph_refl fr] refs res rs
      have ok2: "run_ok ?st2" by (simp add: run_ok_def)
      have b2: "roundBound ?st2 \<le> fuel" using fuel by (simp add: roundBound_def)
      from Suc.IH[OF ok2 b2, of db2] obtain trace hr db' g' hf where
        t: "executeNextBatch fuel inserter models ?st2 db2 = Some (trace, Inr (models, hr, db'))"
        and rd: "rounds inserter ?st2 db2 trace \<lparr>gi_graph = g', gi_done = True, gi_store = hf\<rparr> db'"
        and sg: "same_graph ?g g'" and rf: "ref_frame h2 hf"
        and fo': "final_ok g' hf (nodes g')" and fg: "finalizeGraph g' hf = Inr hr"
        by auto
      from step si se t
      have "executeNextBatch (Suc fuel) inserter models st db
              = Some (?jb # trace, Inr (models, hr, db'))"
        by (simp del: executeNextBatch.simps)
      moreover from rounds_step[OF nextBatch_empty[OF False True] _ _ rd] si se
      have "rounds inserter st db (?jb # trace) \<lparr>gi_graph = g', gi_done = True, gi_store = hf\<rparr> db'"
        by simp
      moreover from fr rf have "ref_frame ?h hf" by (rule ref_frame_trans)
      ultimately show ?thesis using sg fo' fg by blast
    next
      case ne: False
      from mark_batch_succeeds[OF ids] obtain g1 where
        mk: "markBatchHandled ?h ?g (createBatch ?g) = Inr g1" by blast
      let ?st1 = "st\<lparr>gi_graph := g1\<rparr>"
      note step = executeNextBatch_step[OF nextBatch_nonempty[OF False ne mk], of fuel inserter models db]
      note dec = unhandled_decreases[OF ids ne mk]
      note sg1 = mark_batch_result(1)[OF ids mk]
      from fo have mo: "models_ok ?g" by (simp add: final_ok_def models_ok_def)
      from startInsertions_total[OF distinct_batch[OF mo] batch_models_ready[OF ids], of inserter]
      obtain ss h1 where
        si: "startInsertions inserter (createBatch ?g) ?h = Inr (ss, h1)" and f1: "ref_frame ?h h1"
        and so: "\<forall>s \<in> set ss. started_ok ?g inserter s" by blast
      from so have so1: "\<forall>s \<in> set ss. started_ok g1 inserter s"
        using started_ok_same[OF sg1] by blast
      have refs1: "refs_ok g1"
        using refs sg1 same_graph_length[OF sg1] by (simp add: refs_ok_def same_graph_def)
      note rs1 = resolvers_settle_same[OF sg1 rs]
      from settleInsertions_total[OF refs1 rs1 ist so1, of h1 db] obtain h2 db2 where
        se: "settleInsertions g1 ss (h1, db) = Inr (h2, db2)" and f2: "ref_frame h1 h2" by blast
      note ri = round_inv[OF refs ids res io mk si se]
      from f1 f2 have fr: "ref_frame ?h h2" by (rule ref_frame_trans)
      let ?st2 = "?st1\<lparr>gi_store := h2\<rparr>"
      from final_ok_frame[OF refs fo sg1 fr] ri rs1
      have ok2: "run_ok ?st2" by (simp add: run_ok_def)
      have b2: "roundBound ?st2 \<le> fuel" using False dec fuel by (simp add: roundBound_def)
      from Suc.IH[OF ok2 b2, of db2] obtain trace hr db' g' hf where
        t: "executeNextBatch fuel inserter models ?st2 db2 = Some (trace, Inr (models, hr, db'))"
        and rd: "rounds inserter ?st2 db2 trace \<lparr>gi_graph = g', gi_done = True, gi_store = hf\<rparr> db'"
        and sg: "same_graph g1 g'" and rf: "ref_frame h2 hf"
        and fo': "final_ok g' hf (nodes g')" and fg: "finalizeGraph g' hf = Inr hr"
        by auto
      from step si se t
      have "executeNextBatch (Suc fuel) inserter models st db
              = Some (createBatch ?g # trace, Inr (models, hr, db'))"
        by (simp del: executeNextBatch.simps)
      moreover from rounds_step[OF nextBatch_nonempty[OF False ne mk] _ _ rd] si se
      have "rounds inserter st db (createBatch ?g # trace)
              \<lparr>gi_graph = g', gi_done = True, gi_store = hf\<rparr> db'"
        by simp
      moreover from fr rf have "ref_frame ?h hf" by (rule ref_frame_trans)
      moreover from sg1 sg have "same_graph ?g g'" by (rule same_graph_trans)
      ultimately show ?thesis using fo' fg by blast
    qed
  qed
qed


lemma finalizeGraph_result:
  assumes ok: "final_ok gf hf (nodes gf)"
  shows "\<exists>hr. finalizeGraph gf hf = Inr hr \<and> length hr = length hf \<and>
         (\<forall>nd \<in> set (nodes gf).
            (\<not> isRef hf nd \<longrightarrow> objOf hr (node_model nd) = objOf hf (node_model nd)) \<and>
            (isRef hf nd \<longrightarrow>
               (\<exists>a. actualOf gf hf nd = Some a \<and>
                  objOf hr (node_model (nodes gf ! a)) = objOf hf (node_model (nodes gf ! a)) \<and>
                  \<not> has_prop (objOf hr (node_model nd)) uidProp \<and>
                  \<not> has_prop (objOf hr (node_model nd)) uidRefProp \<and>
                  (\<forall>k. k \<noteq> uidProp \<and> k \<noteq> uidRefProp \<longrightarrow>
                     get_prop (objOf hr (node_model nd)) k =
                       (if has_prop (objOf hr (node_model (nodes gf ! a))) k \<and>
                           k \<notin> set (relationNames (node_modelClass (nodes gf ! a))) \<and>
                           \<not> isFunction (get_prop (objOf hr (node_model (nodes gf ! a))) k)
                        then get_prop (objOf hr (node_model (nodes gf ! a))) k
                        else get_prop (objOf hf (node_model nd)) k)))))"
proof -
  from finalizeNodes_result[OF ok] obtain hr where hr: "finalizeNodes gf (nodes gf) hf = Inr hr"
    "length hr = length hf"
    "\<forall>nd \<in> set (nodes gf). objOf hr (node_model nd) = finalModel gf hf nd"
    "\<forall>c < length hf. JRef c \<notin> node_model ` {nd \<in> set (nodes gf). isRef hf nd} \<longrightarrow> hr ! c = hf ! c"
    by blast
  have per: "(\<not> isRef hf nd \<longrightarrow> objOf hr (node_model nd) = objOf hf (node_model nd)) \<and>
            (isRef hf nd \<longrightarrow>
               (\<exists>a. actualOf gf hf nd = Some a \<and>
                  objOf hr (node_model (nodes gf ! a)) = objOf hf (node_model (nodes gf ! a)) \<and>
                  \<not> has_prop (objOf hr (node_model nd)) uidProp \<and>
                  \<not> has_prop (objOf hr (node_model nd)) uidRefProp \<and>
                  (\<forall>k. k \<noteq> uidProp \<and> k \<noteq> uidRefProp \<longrightarrow>
                     get_prop (objOf hr (node_model nd)) k =
                       (if has_prop (objOf hr (node_model (nodes gf ! a))) k \<and>
                           k \<notin> set (relationNames (node_modelClass (nodes gf ! a))) \<and>
                           \<not> isFunction (get_prop (objOf hr (node_model (nodes gf ! a))) k)
                        then get_prop (objOf hr (node_model (nodes gf ! a))) k
                        else get_prop (objOf hf (node_model nd)) k))))"
    if nd: "nd \<in> set (nodes gf)" for nd
  proof (intro conjI impI)
    assume "\<not> isRef hf nd"
    with hr(3) nd show "objOf hr (node_model nd) = objOf hf (node_model nd)"
      by (simp add: finalModel_def)
  next
    assume r: "isRef hf nd"
    with ok nd obtain a where a: "actualOf gf hf nd = Some a"
      "isObj hf (node_model (nodes gf ! a))" "\<not> isRef hf (nodes gf ! a)"
      by (auto simp: final_ok_def)
    let ?am = "node_model (nodes gf ! a)"
    from isObj_objOf[OF a(2)] obtain b where b: "?am = JRef b" "b < length hf" by blast
    have "JRef b \<notin> node_model ` {nd \<in> set (nodes gf). isRef hf nd}"
    proof
      assume "JRef b \<in> node_model ` {nd \<in> set (nodes gf). isRef hf nd}"
      then obtain x where "isRef hf x" "node_model x = JRef b" by auto
      with b(1) a(3) show False by (simp add: isRef_def)
    qed
    with hr(4) b(2) have "hr ! b = hf ! b" by simp
    with b hr(2) have am: "objOf hr ?am = objOf hf ?am" by (simp add: objOf_def)
    from hr(3) nd r a(1) have fm: "objOf hr (node_model nd)
        = finalObj (relationNames (node_modelClass (nodes gf ! a))) (objOf hf ?am)
            (objOf hf (node_model nd))"
      by (simp add: finalModel_def)
    show "\<exists>a. actualOf gf hf nd = Some a \<and>
                  objOf hr (node_model (nodes gf ! a)) = objOf hf (node_model (nodes gf ! a)) \<and>
                  \<not> has_prop (objOf hr (node_model nd)) uidProp \<and>
                  \<not> has_prop (objOf hr (node_model nd)) uidRefProp \<and>
                  (\<forall>k. k \<noteq> uidProp \<and> k \<noteq> uidRefProp \<longrightarrow>
                     get_prop (objOf hr (node_model nd)) k =
                       (if has_prop (objOf hr (node_model (nodes gf ! a))) k \<and>
                           k \<notin> set (relationNames (node_modelClass (nodes gf ! a))) \<and>
                           \<not> isFunction (get_prop (objOf hr (node_model (nodes gf ! a))) k)
                        then get_prop (objOf hr (node_model (nodes gf ! a))) k
                        else get_prop (objOf hf (node_model nd)) k))"
      using a(1) am fm
      by (intro exI[of _ a]) (simp add: finalObj_no_uid finalObj_get)
  qed
  from hr(1,2) per show "\<exists>hr. finalizeGraph gf hf = Inr hr \<and> length hr = length hf \<and>
         (\<forall>nd \<in> set (nodes gf).
            (\<not> isRef hf nd \<longrightarrow> objOf hr (node_model nd) = objOf hf (node_model nd)) \<and>
            (isRef hf nd \<longrightarrow>
               (\<exists>a. actualOf gf hf nd = Some a \<and>
                  objOf hr (node_model (nodes gf ! a)) = objOf hf (node_model (nodes gf ! a)) \<and>
                  \<not> has_prop (objOf hr (node_model nd)) uidProp \<and>
                  \<not> has_prop (objOf hr (node_model nd)) uidRefProp \<and>
                  (\<forall>k. k \<noteq> uidProp \<and> k \<noteq> uidRefProp \<longrightarrow>
                     get_prop (objOf hr (node_model nd)) k =
                       (if has_prop (objOf hr (node_model (nodes gf ! a))) k \<and>
                           k \<notin> set (relationNames (node_modelClass (nodes gf ! a))) \<and>
                           \<not> isFunction (get_prop (objOf hr (node_model (nodes gf ! a))) k)
                        then get_prop (objOf hr (node_model (nodes gf ! a))) k
                        else get_prop (objOf hf (node_model nd)) k)))))"
    unfolding finalizeGraph_def by blast
qed

text \<open>
  Claim C3, as the code has it. The graph is as \<open>DependencyGraph\<close> hands it over
  (\<open>refs_ok\<close>, \<open>ids_ok\<close>), its nodes have different models that are objects, and the
  references, the nodes whose model has a truthy \<open>#ref\<close>, name a node that is no
  reference itself (\<open>final_ok\<close>); the resolvers and the insert callback settle without
  rejecting and leave the values of uid and ref alone. Then \<open>execute\<close> resolves, within
  one round for every node that is not handled and two more, and it resolves with
  \<open>this.models\<close>, the reference that the inserter was given. The store \<open>hr\<close> at that
  moment is the one that the pass of \<open>_finalize\<close> leaves from the store \<open>hf\<close> in which
  the rounds of the run ended (\<open>rounds\<close>), with \<open>done\<close> set, on a graph that differs
  from the one given in the marks only; in \<open>hf\<close> the objects of before are objects with
  the \<open>#ref\<close> that they had. The pass changes
  the models of the references only: the model of a reference has no uid and no ref
  afterwards, and every other property has the value that it has in the model of the
  node referenced, when that model has the property and it is neither a declared
  relation of the class of that node nor a function, and else the value that the
  reference had; the model of the node referenced is as it was when the rounds ended.
\<close>

theorem execute_returns_finalized_input:
  assumes "refs_ok g" and "ids_ok g h" and "resolvers_ok g" and "inserter_ok inserter"
    and "resolvers_settle g" and "inserter_settles inserter" and "final_ok g h (nodes g)"
  shows "\<exists>trace hr db' g' hf.
           (\<forall>fuel \<ge> unhandledCount g + 2.
              execute fuel inserter models g h db = Some (trace, Inr (models, hr, db'))) \<and>
           rounds inserter \<lparr>gi_graph = g, gi_done = False, gi_store = h\<rparr> db trace
             \<lparr>gi_graph = g', gi_done = True, gi_store = hf\<rparr> db' \<and>
           same_graph g g' \<and> ref_frame h hf \<and>
           finalizeGraph g' hf = Inr hr \<and> length hr = length hf \<and>
           (\<forall>nd \<in> set (nodes g).
              (\<not> isRef h nd \<longrightarrow> objOf hr (node_model nd) = objOf hf (node_model nd)) \<and>
              (isRef h nd \<longrightarrow>
                 (\<exists>a. actualOf g h nd = Some a \<and>
                    objOf hr (node_model (nodes g ! a)) = objOf hf (node_model (nodes g ! a)) \<and>
                    \<not> has_prop (objOf hr (node_model nd)) uidProp \<and>
                    \<not> has_prop (objOf hr (node_model nd)) uidRefProp \<and>
                    (\<forall>k. k \<noteq> uidProp \<and> k \<noteq> uidRefProp \<longrightarrow>
                       get_prop (objOf hr (node_model nd)) k =
                         (if has_prop (objOf hr (node_model (nodes g ! a))) k \<and>
                             k \<notin> set (relationNames (node_modelClass (nodes g ! a))) \<and>
                             \<not> isFunction (get_prop (objOf hr (node_model (nodes g ! a))) k)
                          then get_prop (objOf hr (node_model (nodes g ! a))) k
                          else get_prop (objOf hf (node_model nd)) k)))))"
proof -
  let ?st = "\<lparr>gi_graph = g, gi_done = False, gi_store = h\<rparr>"
  have ok: "run_ok ?st" using assms by (simp add: run_ok_def)
  have b: "roundBound ?st \<le> unhandledCount g + 2" by (simp add: roundBound_def)
  from executeNextBatch_total[OF assms(4,6) ok b, of models db] obtain trace hr db' g' hf where
    t: "executeNextBatch (unhandledCount g + 2) inserter models ?st db
          = Some (trace, Inr (models, hr, db'))"
    and rd: "rounds inserter ?st db trace \<lparr>gi_graph = g', gi_done = True, gi_store = hf\<rparr> db'"
    and sg: "same_graph g g'" and fr: "ref_frame h hf"
    and fo: "final_ok g' hf (nodes g')" and fg: "finalizeGraph g' hf = Inr hr"
    by auto
  have run: "\<forall>fuel \<ge> unhandledCount g + 2.
      execute fuel inserter models g h db = Some (trace, Inr (models, hr, db'))"
    unfolding execute_def using executeNextBatch_fuel[OF t] by blast
  from finalizeGraph_result[OF fo] fg have len: "length hr = length hf"
    and per': "\<forall>nd' \<in> set (nodes g').
            (\<not> isRef hf nd' \<longrightarrow> objOf hr (node_model nd') = objOf hf (node_model nd')) \<and>
            (isRef hf nd' \<longrightarrow>
               (\<exists>a. actualOf g' hf nd' = Some a \<and>
                  objOf hr (node_model (nodes g' ! a)) = objOf hf (node_model (nodes g' ! a)) \<and>
                  \<not> has_prop (objOf hr (node_model nd')) uidProp \<and>
                  \<not> has_prop (objOf hr (node_model nd')) uidRefProp \<and>
                  (\<forall>k. k \<noteq> uidProp \<and> k \<noteq> uidRefProp \<longrightarrow>
                     get_prop (objOf hr (node_model nd')) k =
                       (if has_prop (objOf hr (node_model (nodes g' ! a))) k \<and>
                           k \<notin> set (relationNames (node_modelClass (nodes g' ! a))) \<and>
                           \<not> isFunction (get_prop (objOf hr (node_model (nodes g' ! a))) k)
                        then get_prop (objOf hr (node_model (nodes g' ! a))) k
                        else get_prop (objOf hf (node_model nd')) k))))"
    by auto
  note lg = same_graph_length[OF sg]
  from sg have nb: "nodesById g' = nodesById g" by (simp add: same_graph_def)
  have model: "node_model (nodes g' ! n) = node_model (nodes g ! n)"
    and cls: "node_modelClass (nodes g' ! n) = node_modelClass (nodes g ! n)"
    if "n < length (nodes g)" for n
    using unmarked_fields(2,3)[OF same_graph_nth[OF sg that]] by simp_all
  have per: "(\<not> isRef h nd \<longrightarrow> objOf hr (node_model nd) = objOf hf (node_model nd)) \<and>
              (isRef h nd \<longrightarrow>
                 (\<exists>a. actualOf g h nd = Some a \<and>
                    objOf hr (node_model (nodes g ! a)) = objOf hf (node_model (nodes g ! a)) \<and>
                    \<not> has_prop (objOf hr (node_model nd)) uidProp \<and>
                    \<not> has_prop (objOf hr (node_model nd)) uidRefProp \<and>
                    (\<forall>k. k \<noteq> uidProp \<and> k \<noteq> uidRefProp \<longrightarrow>
                       get_prop (objOf hr (node_model nd)) k =
                         (if has_prop (objOf hr (node_model (nodes g ! a))) k \<and>
                             k \<notin> set (relationNames (node_modelClass (nodes g ! a))) \<and>
                             \<not> isFunction (get_prop (objOf hr (node_model (nodes g ! a))) k)
                          then get_prop (objOf hr (node_model (nodes g ! a))) k
                          else get_prop (objOf hf (node_model nd)) k))))"
    if nd: "nd \<in> set (nodes g)" for nd
  proof -
    from nd obtain n where n: "n < length (nodes g)" "nodes g ! n = nd"
      by (auto simp: in_set_conv_nth)
    let ?nd' = "nodes g' ! n"
    from n lg have mem': "?nd' \<in> set (nodes g')" by simp
    from model[OF n(1)] n(2) have mm: "node_model ?nd' = node_model nd" by simp
    from assms(7) nd have o: "isObj h (node_model nd)" by (simp add: final_ok_def)
    note f = ref_frame_model[OF fr o]
    have r: "isRef hf ?nd' = isRef h nd" using f(2) mm by (simp add: isRef_def)
    have a: "actualOf g' hf ?nd' = actualOf g h nd" using f(2) mm nb by (simp add: actualOf_def)
    from per' mem' have p: "(\<not> isRef hf ?nd' \<longrightarrow> objOf hr (node_model ?nd') = objOf hf (node_model ?nd')) \<and>
            (isRef hf ?nd' \<longrightarrow>
               (\<exists>a. actualOf g' hf ?nd' = Some a \<and>
                  objOf hr (node_model (nodes g' ! a)) = objOf hf (node_model (nodes g' ! a)) \<and>
                  \<not> has_prop (objOf hr (node_model ?nd')) uidProp \<and>
                  \<not> has_prop (objOf hr (node_model ?nd')) uidRefProp \<and>
                  (\<forall>k. k \<noteq> uidProp \<and> k \<noteq> uidRefProp \<longrightarrow>
                     get_prop (objOf hr (node_model ?nd')) k =
                       (if has_prop (objOf hr (node_model (nodes g' ! a))) k \<and>
                           k \<notin> set (relationNames (node_modelClass (nodes g' ! a))) \<and>
                           \<not> isFunction (get_prop (objOf hr (node_model (nodes g' ! a))) k)
                        then get_prop (objOf hr (node_model (nodes g' ! a))) k
                        else get_prop (objOf hf (node_model ?nd')) k))))"
      by blast
    show ?thesis
    proof (intro conjI impI)
      assume "\<not> isRef h nd"
      with p r mm show "objOf hr (node_model nd) = objOf hf (node_model nd)" by simp
    next
      assume "isRef h nd"
      with p r obtain c where c: "actualOf g' hf ?nd' = Some c"
        "objOf hr (node_model (nodes g' ! c)) = objOf hf (node_model (nodes g' ! c))"
        "\<not> has_prop (objOf hr (node_model ?nd')) uidProp"
        "\<not> has_prop (objOf hr (node_model ?nd')) uidRefProp"
        "\<forall>k. k \<noteq> uidProp \<and> k \<noteq> uidRefProp \<longrightarrow>
                     get_prop (objOf hr (node_model ?nd')) k =
                       (if has_prop (objOf hr (node_model (nodes g' ! c))) k \<and>
                           k \<notin> set (relationNames (node_modelClass (nodes g' ! c))) \<and>
                           \<not> isFunction (get_prop (objOf hr (node_model (nodes g' ! c))) k)
                        then get_prop (objOf hr (node_model (nodes g' ! c))) k
                        else get_prop (objOf hf (node_model ?nd')) k)"
        by blast
      from c(1) a have ac: "actualOf g h nd = Some c" by simp
      with assms(1) have cl: "c < length (nodes g)" by (auto simp: actualOf_def refs_ok_def)
      note mc = model[OF cl] cls[OF cl]
      from ac c(2-5) show "\<exists>a. actualOf g h nd = Some a \<and>
                    objOf hr (node_model (nodes g ! a)) = objOf hf (node_model (nodes g ! a)) \<and>
                    \<not> has_prop (objOf hr (node_model nd)) uidProp \<and>
                    \<not> has_prop (objOf hr (node_model nd)) uidRefProp \<and>
                    (\<forall>k. k \<noteq> uidProp \<and> k \<noteq> uidRefProp \<longrightarrow>
                       get_prop (objOf hr (node_model nd)) k =
                         (if has_prop (objOf hr (node_model (nodes g ! a))) k \<and>
                             k \<notin> set (relationNames (node_modelClass (nodes g ! a))) \<and>
                             \<not> isFunction (get_prop (objOf hr (node_model (nodes g ! a))) k)
                          then get_prop (objOf hr (node_model (nodes g ! a))) k
                          else get_prop (objOf hf (node_model nd)) k))"
        unfolding mc mm by (intro exI[of _ c]) simp
    qed
  qed
  from run rd sg fr fg len per show ?thesis by blast
qed


lemma writeProp_ref_frame:
  assumes "k \<noteq> uidRefProp" "writeProp h r k v = Inr h'"
  shows "ref_frame h h'"
proof (cases r)
  case (JRef a)
  show ?thesis
  proof (cases "a < length h")
    case True
    note a = this
    show ?thesis
    proof (cases "h ! a")
      case (Obj ob)
      with assms JRef a have h': "h' = h[a := Obj (set_prop ob k v)]" by simp
      show ?thesis unfolding ref_frame_def h'
      proof (intro conjI allI impI)
        show "length h \<le> length (h[a := Obj (set_prop ob k v)])" by simp
      next
        fix b ob0 assume b: "b < length h" and o: "h ! b = Obj ob0"
        show "\<exists>ob'. h[a := Obj (set_prop ob k v)] ! b = Obj ob' \<and>
                    get_prop ob' uidRefProp = get_prop ob0 uidRefProp"
        proof (cases "b = a")
          case True
          with b o Obj assms(1) show ?thesis by (simp add: get_set_prop)
        next
          case False
          with b o show ?thesis by simp
        qed
      qed
    next
      case (Arr xs)
      with assms JRef a show ?thesis by (simp add: ref_frame_refl)
    qed
  next
    case False
    with assms JRef show ?thesis by (simp add: ref_frame_refl)
  qed
qed (use assms in simp_all)

lemma assignIds_ref_frame: "ref_frame h (assignIds h ms n)"
proof (induction ms arbitrary: h n)
  case Nil
  then show ?case by (simp add: ref_frame_refl)
next
  case (Cons m ms)
  show ?case
  proof (cases "writeProp h m ''id'' (JNum (int n))")
    case (Inl e)
    then show ?thesis by (simp add: ref_frame_refl)
  next
    case (Inr h')
    have "''id'' \<noteq> uidRefProp" by (simp add: uidRefProp_def)
    from writeProp_ref_frame[OF this Inr] Cons.IH[of h' "Suc n"] Inr show ?thesis
      by (auto intro: ref_frame_trans)
  qed
qed

lemma inserter_settles_insertRows: "inserter_settles insertRows"
  by (simp add: inserter_settles_def insertRows_def assignIds_ref_frame)

lemma refGraph_nodes: "nodes refGraph = [filmNode ''m'' 0 False, filmNode ''r'' 1 True]"
  by (simp add: refGraph_def)

lemma refs_ok_refGraph: "refs_ok refGraph"
  by (auto simp: refs_ok_def refGraph_def split: if_splits)

lemma ids_ok_refGraph: "ids_ok refGraph refStore"
  unfolding ids_ok_def refGraph_nodes
  by (simp add: All_less_Suc filmNode_def refStore_def isObj_def lookupNode_def get_prop_def
      uidProp_def refGraph_def)

lemma resolvers_ok_refGraph: "resolvers_ok refGraph"
  by (simp add: resolvers_ok_def refGraph_nodes filmNode_def)

lemma resolvers_settle_refGraph: "resolvers_settle refGraph"
  by (simp add: resolvers_settle_def refGraph_nodes filmNode_def)

lemma final_ok_refStore: "final_ok refGraph refStore (nodes refGraph)"
proof -
  have o: "isObj refStore (JRef 0)" "isObj refStore (JRef 1)"
    by (simp_all add: isObj_def refStore_def)
  have r0: "\<not> isRef refStore (filmNode ''m'' 0 False)"
    by (simp add: isRef_def filmNode_def objOf_def refStore_def get_prop_def uidRefProp_def)
  have a1: "actualOf refGraph refStore (filmNode ''r'' 1 True) = Some 0"
    by (simp add: actualOf_def filmNode_def objOf_def refStore_def get_prop_def
        uidRefProp_def refGraph_def)
  have m: "node_model (filmNode ''m'' 0 False) = JRef 0" "node_model (filmNode ''r'' 1 True) = JRef 1"
    by (simp_all add: filmNode_def)
  have z: "nodes refGraph ! 0 = filmNode ''m'' 0 False" by (simp add: refGraph_nodes)
  show ?thesis
    unfolding final_ok_def refGraph_nodes using o r0 a1 m z by auto
qed

theorem execute_returns_finalized_input_witness:
  "refs_ok refGraph \<and> ids_ok refGraph refStore \<and> resolvers_ok refGraph \<and>
   inserter_ok insertRows \<and> resolvers_settle refGraph \<and> inserter_settles insertRows \<and>
   final_ok refGraph refStore (nodes refGraph) \<and>
   unhandledCount refGraph + 2 = 3 \<and>
   nodes refGraph ! 1 \<in> set (nodes refGraph) \<and>
   isRef refStore (nodes refGraph ! 1) \<and>
   actualOf refGraph refStore (nodes refGraph ! 1) = Some 0 \<and>
   map_option (\<lambda>r. (map (map (\<lambda>kv. (fst kv, ti_models (snd kv)))) (fst r), snd r))
       (execute 3 insertRows (JRef 2) refGraph refStore [])
     = Some ([[(''Film'', [JRef 0])], []],
             Inr (JRef 2, finalStore,
                  [[(''title'', JStr ''t''), (''actors'', JRef 3), (''toJSON'', JFun ''f'')]])) \<and>
   \<not> has_prop (objOf finalStore (node_model (nodes refGraph ! 1))) uidProp \<and>
   \<not> has_prop (objOf finalStore (node_model (nodes refGraph ! 1))) uidRefProp \<and>
   objOf finalStore (node_model (nodes refGraph ! 0))
     = [(''title'', JStr ''t''), (''actors'', JRef 3), (''toJSON'', JFun ''f''), (''id'', JNum 1)] \<and>
   objOf finalStore (node_model (nodes refGraph ! 1))
     = [(''role'', JStr ''lead''), (''title'', JStr ''t''), (''id'', JNum 1)]"
proof -
  note h = refs_ok_refGraph ids_ok_refGraph resolvers_ok_refGraph inserter_ok_insertRows
    resolvers_settle_refGraph inserter_settles_insertRows final_ok_refStore
  have u: "unhandledCount refGraph + 2 = 3"
    by (simp add: unhandledCount_def refGraph_nodes filmNode_def)
  have m: "nodes refGraph ! 1 \<in> set (nodes refGraph)" by (simp add: refGraph_nodes)
  have r: "isRef refStore (nodes refGraph ! 1)"
    by (simp add: isRef_def refGraph_nodes filmNode_def objOf_def refStore_def get_prop_def
        uidRefProp_def)
  have a: "actualOf refGraph refStore (nodes refGraph ! 1) = Some 0"
    by (simp add: actualOf_def refGraph_nodes filmNode_def objOf_def refStore_def get_prop_def
        uidRefProp_def refGraph_def)
  have e: "map_option (\<lambda>r. (map (map (\<lambda>kv. (fst kv, ti_models (snd kv)))) (fst r), snd r))
       (execute 3 insertRows (JRef 2) refGraph refStore [])
     = Some ([[(''Film'', [JRef 0])], []],
             Inr (JRef 2, finalStore,
                  [[(''title'', JStr ''t''), (''actors'', JRef 3), (''toJSON'', JFun ''f'')]]))"
    by code_simp
  from execute_returns_finalized_input[OF h, of "JRef 2" "[]"] obtain trace hr db' g' hf where
    run: "\<forall>fuel \<ge> unhandledCount refGraph + 2.
            execute fuel insertRows (JRef 2) refGraph refStore [] = Some (trace, Inr (JRef 2, hr, db'))"
    and per: "\<forall>nd \<in> set (nodes refGraph).
              (\<not> isRef refStore nd \<longrightarrow> objOf hr (node_model nd) = objOf hf (node_model nd)) \<and>
              (isRef refStore nd \<longrightarrow>
                 (\<exists>a. actualOf refGraph refStore nd = Some a \<and>
                    objOf hr (node_model (nodes refGraph ! a)) = objOf hf (node_model (nodes refGraph ! a)) \<and>
                    \<not> has_prop (objOf hr (node_model nd)) uidProp \<and>
                    \<not> has_prop (objOf hr (node_model nd)) uidRefProp \<and>
                    (\<forall>k. k \<noteq> uidProp \<and> k \<noteq> uidRefProp \<longrightarrow>
                       get_prop (objOf hr (node_model nd)) k =
                         (if has_prop (objOf hr (node_model (nodes refGraph ! a))) k \<and>
                             k \<notin> set (relationNames (node_modelClass (nodes refGraph ! a))) \<and>
                             \<not> isFunction (get_prop (objOf hr (node_model (nodes refGraph ! a))) k)
                          then get_prop (objOf hr (node_model (nodes refGraph ! a))) k
                          else get_prop (objOf hf (node_model nd)) k))))"
    by blast
  from run u have "execute 3 insertRows (JRef 2) refGraph refStore [] = Some (trace, Inr (JRef 2, hr, db'))"
    by simp
  with e have hr: "hr = finalStore" by simp
  from per m r have "\<not> has_prop (objOf hr (node_model (nodes refGraph ! 1))) uidProp"
    and "\<not> has_prop (objOf hr (node_model (nodes refGraph ! 1))) uidRefProp" by blast+
  with hr have p: "\<not> has_prop (objOf finalStore (node_model (nodes refGraph ! 1))) uidProp"
    "\<not> has_prop (objOf finalStore (node_model (nodes refGraph ! 1))) uidRefProp" by simp_all
  have v0: "objOf finalStore (node_model (nodes refGraph ! 0))
     = [(''title'', JStr ''t''), (''actors'', JRef 3), (''toJSON'', JFun ''f''), (''id'', JNum 1)]"
    by (simp add: finalStore_def objOf_def refGraph_nodes filmNode_def)
  have v1: "objOf finalStore (node_model (nodes refGraph ! 1))
     = [(''role'', JStr ''lead''), (''title'', JStr ''t''), (''id'', JNum 1)]"
    by (simp add: finalStore_def objOf_def refGraph_nodes filmNode_def)
  from h u m r a e p v0 v1 show ?thesis by blast
qed

text \<open>
  Claim C3 as stated speaks of every node whose model carries the ref property. The
  pass tests the value of the property: a reference whose \<open>#ref\<close> is the empty string,
  the uid under which the graph has the film, is left as it is. It keeps its uid and its
  ref and receives no property of the film.
\<close>

definition emptyRefGraph :: graph where
  "emptyRefGraph =
     \<lparr>nodes = [filmNode '''' 0 False, filmNode ''r'' 1 True],
      nodesById = ['''' \<mapsto> 0, ''r'' \<mapsto> 1],
      inputNodesById = ['''' \<mapsto> 0, ''r'' \<mapsto> 1]\<rparr>"

definition emptyRefStore :: heap where
  "emptyRefStore =
     [Obj [(''#id'', JStr ''''), (''title'', JStr ''t'')],
      Obj [(''#id'', JStr ''r''), (''#ref'', JStr ''''), (''role'', JStr ''lead'')],
      Arr [JRef 0, JRef 1]]"

theorem falsy_ref_is_not_finalized:
  "has_prop (objOf emptyRefStore (node_model (nodes emptyRefGraph ! 1))) uidRefProp \<and>
   nodesById emptyRefGraph
       (ToString (get_prop (objOf emptyRefStore (node_model (nodes emptyRefGraph ! 1))) uidRefProp))
     = Some 0 \<and>
   map_option (\<lambda>r. (map (map (\<lambda>kv. (fst kv, ti_models (snd kv)))) (fst r), snd r))
       (execute 3 insertRows (JRef 2) emptyRefGraph emptyRefStore [])
     = Some ([[(''Film'', [JRef 0])], []],
             Inr (JRef 2,
                  [Obj [(''title'', JStr ''t''), (''id'', JNum 1)],
                   Obj [(''#id'', JStr ''r''), (''#ref'', JStr ''''), (''role'', JStr ''lead'')],
                   Arr [JRef 0, JRef 1]],
                  [[(''title'', JStr ''t'')]]))"
proof -
  have a: "has_prop (objOf emptyRefStore (node_model (nodes emptyRefGraph ! 1))) uidRefProp"
    by code_simp
  have b: "nodesById emptyRefGraph
       (ToString (get_prop (objOf emptyRefStore (node_model (nodes emptyRefGraph ! 1))) uidRefProp))
     = Some 0"
    by code_simp
  have c: "map_option (\<lambda>r. (map (map (\<lambda>kv. (fst kv, ti_models (snd kv)))) (fst r), snd r))
       (execute 3 insertRows (JRef 2) emptyRefGraph emptyRefStore [])
     = Some ([[(''Film'', [JRef 0])], []],
             Inr (JRef 2,
                  [Obj [(''title'', JStr ''t''), (''id'', JNum 1)],
                   Obj [(''#id'', JStr ''r''), (''#ref'', JStr ''''), (''role'', JStr ''lead'')],
                   Arr [JRef 0, JRef 1]],
                  [[(''title'', JStr ''t'')]]))"
    by code_simp
  from a b c show ?thesis by blast
qed

end
